theory Spec2Isabelle
  imports Main
begin

section \<open>Text and the Unicode primitives of the host language\<close>

text \<open>
  A Python \<open>str\<close> is a sequence of Unicode code points; indexing, slicing, \<open>len\<close> and
  dictionary lookup all work on code points. A string is therefore a list of code points,
  each a natural number. ASCII literals are written through \<open>ascii\<close>; everything else
  (the Devanagari values of the tables, the ellipsis) is written as hexadecimal code points.
\<close>

type_synonym cp = nat
type_synonym ustr = "cp list"

definition ascii :: "string \<Rightarrow> ustr" where
  "ascii s = map of_char s"

text \<open>
  The program calls five primitives of \<open>str\<close> whose result depends on the Unicode
  character database of the interpreter: \<open>lower\<close> (on a whole token), \<open>upper\<close> (on one
  character), \<open>isalpha\<close> and \<open>islower\<close> (on one character), and the whitespace test that
  \<open>split()\<close>, \<open>strip()\<close> and \<open>isspace\<close> share. They are not code of the program, so
  every function below takes them as a parameter \<open>U\<close>. \<open>is_upper\<close> (\<open>str.isupper\<close> on
  one character) is never called by the program; it is only used to state properties of
  its output.
\<close>

record unicode_db =
  str_lower :: "ustr \<Rightarrow> ustr"
  str_upper :: "ustr \<Rightarrow> ustr"
  is_space :: "cp \<Rightarrow> bool"
  is_alpha :: "cp \<Rightarrow> bool"
  is_lower :: "cp \<Rightarrow> bool"
  is_upper :: "cp \<Rightarrow> bool"

text \<open>
  A concrete database, used to run the program on examples. It agrees with CPython on the
  Basic Latin block and on the Devanagari block (U+0900 to U+097F, which has no case), and
  its whitespace set is CPython's complete one. Code points of other blocks are treated as
  caseless non-letters.
\<close>

definition py_lower_cp :: "cp \<Rightarrow> cp" where
  "py_lower_cp c = (if 0x41 \<le> c \<and> c \<le> 0x5A then c + 0x20 else c)"

definition py_upper_cp :: "cp \<Rightarrow> cp" where
  "py_upper_cp c = (if 0x61 \<le> c \<and> c \<le> 0x7A then c - 0x20 else c)"

definition py_isspace :: "cp \<Rightarrow> bool" where
  "py_isspace c \<longleftrightarrow>
     (0x9 \<le> c \<and> c \<le> 0xD) \<or> (0x1C \<le> c \<and> c \<le> 0x20) \<or> c = 0x85 \<or> c = 0xA0 \<or>
     c = 0x1680 \<or> (0x2000 \<le> c \<and> c \<le> 0x200A) \<or> c = 0x2028 \<or> c = 0x2029 \<or>
     c = 0x202F \<or> c = 0x205F \<or> c = 0x3000"

definition py_islower :: "cp \<Rightarrow> bool" where
  "py_islower c \<longleftrightarrow> 0x61 \<le> c \<and> c \<le> 0x7A"

definition py_isupper :: "cp \<Rightarrow> bool" where
  "py_isupper c \<longleftrightarrow> 0x41 \<le> c \<and> c \<le> 0x5A"

definition py_isalpha :: "cp \<Rightarrow> bool" where
  "py_isalpha c \<longleftrightarrow>
     py_isupper c \<or> py_islower c \<or> (0x904 \<le> c \<and> c \<le> 0x939) \<or> c = 0x93D \<or>
     c = 0x950 \<or> (0x958 \<le> c \<and> c \<le> 0x961) \<or> (0x971 \<le> c \<and> c \<le> 0x97F)"

definition py :: unicode_db where
  "py = \<lparr> str_lower = map py_lower_cp, str_upper = map py_upper_cp,
          is_space = py_isspace, is_alpha = py_isalpha,
          is_lower = py_islower, is_upper = py_isupper \<rparr>"

subsection \<open>String operations of the host language\<close>

text \<open>
  \<open>s.split(sep)\<close> for a non-empty separator: the pieces between the leftmost,
  non-overlapping occurrences of \<open>sep\<close>; \<open>cur\<close> is the piece being collected. The result
  always has at least one piece. The program only calls it with the constants
  \<open>'\n'\<close> and \<open>'. '\<close>; for an empty separator, where Python raises \<open>ValueError\<close>, the
  function returns the text unsplit.
\<close>

function split_sep :: "ustr \<Rightarrow> ustr \<Rightarrow> ustr \<Rightarrow> ustr list" where
  "split_sep sep cur s =
     (if s = [] \<or> sep = [] then [cur @ s]
      else if take (length sep) s = sep then cur # split_sep sep [] (drop (length sep) s)
      else split_sep sep (cur @ [hd s]) (tl s))"
  by pat_completeness auto
termination
  by (relation "measure (\<lambda>(sep, cur, s). length s)") auto

declare split_sep.simps [simp del]

text \<open>\<open>sep.join(xs)\<close>.\<close>

fun join :: "ustr \<Rightarrow> ustr list \<Rightarrow> ustr" where
  "join sep [] = []"
| "join sep [x] = x"
| "join sep (x # y # ys) = x @ sep @ join sep (y # ys)"

text \<open>
  \<open>s.split()\<close> without argument: the maximal runs of non-whitespace characters, in
  order; \<open>cur\<close> is the run being collected.
\<close>

fun split_ws :: "unicode_db \<Rightarrow> ustr \<Rightarrow> ustr \<Rightarrow> ustr list" where
  "split_ws U cur [] = (if cur = [] then [] else [cur])"
| "split_ws U cur (c # cs) =
     (if is_space U c then (if cur = [] then split_ws U [] cs else cur # split_ws U [] cs)
      else split_ws U (cur @ [c]) cs)"

text \<open>\<open>s.strip()\<close>: whitespace removed at both ends.\<close>

definition strip :: "unicode_db \<Rightarrow> ustr \<Rightarrow> ustr" where
  "strip U s = rev (dropWhile (is_space U) (rev (dropWhile (is_space U) s)))"

text \<open>
  \<open>s.replace(old, new)\<close>: every leftmost, non-overlapping occurrence of \<open>old\<close> is
  replaced. With an empty \<open>old\<close> Python inserts \<open>new\<close> before every character and at the
  end; the program never does that, the case is kept for completeness.
\<close>

function replace_ne :: "ustr \<Rightarrow> ustr \<Rightarrow> ustr \<Rightarrow> ustr" where
  "replace_ne old new s =
     (if s = [] \<or> old = [] then s
      else if take (length old) s = old then new @ replace_ne old new (drop (length old) s)
      else hd s # replace_ne old new (tl s))"
  by pat_completeness auto
termination
  by (relation "measure (\<lambda>(old, new, s). length s)") auto

declare replace_ne.simps [simp del]

definition replace :: "ustr \<Rightarrow> ustr \<Rightarrow> ustr \<Rightarrow> ustr" where
  "replace old new s =
     (if old = [] then new @ concat (map (\<lambda>c. c # new) s) else replace_ne old new s)"

section \<open>The lookup tables of \<open>TextTransformer\<close>\<close>

text \<open>
  A dictionary literal keeps, for a key written twice, the value written last
  (\<open>'take'\<close> and \<open>'too'\<close> occur twice in \<open>eng_to_dev_map\<close>). The literals are kept as the
  lists of pairs the source writes, in its order, and looked up from the back.
\<close>

definition dict_of :: "(ustr \<times> ustr) list \<Rightarrow> ustr \<rightharpoonup> ustr" where
  "dict_of items = map_of (rev items)"

definition eng_to_dev_items :: "(ustr \<times> ustr) list" where
  "eng_to_dev_items =
    [(ascii ''a'', [0x905]), (ascii ''b'', [0x92C]), (ascii ''c'', [0x915]),
     (ascii ''d'', [0x926]), (ascii ''e'', [0x908]), (ascii ''f'', [0x92B]),
     (ascii ''g'', [0x917]), (ascii ''h'', [0x939]), (ascii ''i'', [0x906, 0x908]),
     (ascii ''j'', [0x91C]), (ascii ''k'', [0x915]), (ascii ''l'', [0x932]),
     (ascii ''m'', [0x92E]), (ascii ''n'', [0x928]), (ascii ''o'', [0x913]),
     (ascii ''p'', [0x92A]), (ascii ''q'', [0x915, 0x94D, 0x92F, 0x942]),
     (ascii ''r'', [0x906, 0x930]), (ascii ''s'', [0x90F, 0x938]), (ascii ''t'', [0x91F]),
     (ascii ''u'', [0x92F, 0x942]), (ascii ''v'', [0x935, 0x940]),
     (ascii ''w'', [0x921, 0x92C, 0x94D, 0x932, 0x94D, 0x92F, 0x942]),
     (ascii ''x'', [0x90F, 0x915, 0x94D, 0x938]), (ascii ''y'', [0x935, 0x93E, 0x908]),
     (ascii ''z'', [0x91C, 0x947, 0x921]), (ascii ''th'', [0x925]), (ascii ''sh'', [0x936]),
     (ascii ''ch'', [0x91A]), (ascii ''ph'', [0x92B]), (ascii ''gh'', [0x918]),
     (ascii ''kh'', [0x916]), (ascii ''dh'', [0x927]), (ascii ''bh'', [0x92D]),
     (ascii ''jh'', [0x91D]), (ascii ''ng'', [0x902, 0x917]), (ascii ''ck'', [0x915]),
     (ascii ''st'', [0x938, 0x94D, 0x91F]), (ascii ''sp'', [0x938, 0x94D, 0x92A]),
     (ascii ''sc'', [0x938, 0x94D, 0x915]), (ascii ''sk'', [0x938, 0x94D, 0x915]),
     (ascii ''aa'', [0x906]), (ascii ''ee'', [0x908]), (ascii ''ii'', [0x908]),
     (ascii ''oo'', [0x90A]), (ascii ''uu'', [0x90A]), (ascii ''ai'', [0x910]),
     (ascii ''ay'', [0x90F]), (ascii ''au'', [0x914]), (ascii ''aw'', [0x911]),
     (ascii ''ey'', [0x90F]), (ascii ''ou'', [0x913]), (ascii ''ow'', [0x906, 0x909]),
     (ascii ''oy'', [0x911, 0x92F]), (ascii ''ea'', [0x908]), (ascii ''ie'', [0x906, 0x908]),
     (ascii ''oa'', [0x913]), (ascii ''ue'', [0x92F, 0x942]),
     (ascii ''ui'', [0x92F, 0x942, 0x906, 0x908]), (ascii ''eu'', [0x92F, 0x942]),
     (ascii ''the'', [0x926]), (ascii ''and'', [0x90F, 0x902, 0x921]),
     (ascii ''are'', [0x906, 0x930]), (ascii ''you'', [0x92F, 0x942]),
     (ascii ''for'', [0x92B, 0x949, 0x930]), (ascii ''not'', [0x928, 0x949, 0x91F]),
     (ascii ''but'', [0x92C, 0x91F]), (ascii ''can'', [0x915, 0x948, 0x928]),
     (ascii ''all'', [0x911, 0x932]), (ascii ''any'', [0x90F, 0x928, 0x940]),
     (ascii ''had'', [0x939, 0x948, 0x921]), (ascii ''her'', [0x939, 0x930]),
     (ascii ''was'', [0x935, 0x949, 0x91C, 0x93C]), (ascii ''one'', [0x935, 0x928]),
     (ascii ''our'', [0x906, 0x935, 0x930]), (ascii ''out'', [0x906, 0x909, 0x91F]),
     (ascii ''day'', [0x921, 0x947]), (ascii ''get'', [0x917, 0x947, 0x91F]),
     (ascii ''has'', [0x939, 0x948, 0x91C, 0x93C]), (ascii ''him'', [0x939, 0x93F, 0x92E]),
     (ascii ''his'', [0x939, 0x93F, 0x91C, 0x93C]), (ascii ''how'', [0x939, 0x93E, 0x909]),
     (ascii ''man'', [0x92E, 0x948, 0x928]), (ascii ''new'', [0x928, 0x94D, 0x92F, 0x942]),
     (ascii ''now'', [0x928, 0x93E, 0x909]), (ascii ''old'', [0x913, 0x932, 0x94D, 0x921]),
     (ascii ''see'', [0x938, 0x940]), (ascii ''two'', [0x91F, 0x942]),
     (ascii ''way'', [0x935, 0x947]), (ascii ''who'', [0x939, 0x942]),
     (ascii ''boy'', [0x92C, 0x949, 0x92F]), (ascii ''did'', [0x921, 0x93F, 0x921]),
     (ascii ''its'', [0x907, 0x91F, 0x94D, 0x938]), (ascii ''let'', [0x932, 0x947, 0x91F]),
     (ascii ''put'', [0x92A, 0x941, 0x91F]), (ascii ''say'', [0x938, 0x947]),
     (ascii ''she'', [0x936, 0x940]), (ascii ''too'', [0x91F, 0x942]),
     (ascii ''use'', [0x92F, 0x942, 0x91C, 0x93C]),
     (ascii ''what'', [0x935, 0x94D, 0x939, 0x93E, 0x91F]),
     (ascii ''when'', [0x935, 0x94D, 0x939, 0x947, 0x928]),
     (ascii ''where'', [0x935, 0x94D, 0x939, 0x947, 0x92F, 0x930]),
     (ascii ''why'', [0x935, 0x94D, 0x939, 0x93E, 0x908]),
     (ascii ''with'', [0x935, 0x93F, 0x925]), (ascii ''will'', [0x935, 0x93F, 0x932]),
     (ascii ''were'', [0x935, 0x930]), (ascii ''been'', [0x92C, 0x940, 0x928]),
     (ascii ''have'', [0x939, 0x948, 0x935]), (ascii ''this'', [0x926, 0x93F, 0x938]),
     (ascii ''that'', [0x926, 0x948, 0x91F]), (ascii ''they'', [0x926, 0x947]),
     (ascii ''them'', [0x926, 0x947, 0x92E]), (ascii ''there'', [0x926, 0x947, 0x92F, 0x930]),
     (ascii ''then'', [0x926, 0x947, 0x928]), (ascii ''than'', [0x926, 0x948, 0x928]),
     (ascii ''these'', [0x926, 0x940, 0x91C, 0x93C]),
     (ascii ''those'', [0x926, 0x94B, 0x91C, 0x93C]),
     (ascii ''think'', [0x925, 0x93F, 0x902, 0x915]),
     (ascii ''through'', [0x925, 0x94D, 0x930, 0x942]),
     (ascii ''time'', [0x91F, 0x93E, 0x907, 0x92E]), (ascii ''take'', [0x91F, 0x947, 0x915]),
     (ascii ''tell'', [0x91F, 0x947, 0x932]), (ascii ''turn'', [0x91F, 0x930, 0x94D, 0x928]),
     (ascii ''try'', [0x91F, 0x94D, 0x930, 0x93E, 0x908]),
     (ascii ''first'', [0x92B, 0x930, 0x94D, 0x938, 0x94D, 0x91F]),
     (ascii ''wife'', [0x935, 0x93E, 0x907, 0x92B]),
     (ascii ''wedding'', [0x935, 0x947, 0x921, 0x93F, 0x902, 0x917]),
     (ascii ''night'', [0x928, 0x93E, 0x907, 0x91F]),
     (ascii ''lying'', [0x932, 0x93E, 0x907, 0x902, 0x917]),
     (ascii ''bed'', [0x92C, 0x947, 0x921]),
     (ascii ''quietly'', [0x915, 0x94D, 0x935, 0x93E, 0x907, 0x91F, 0x932, 0x940]),
     (ascii ''said'', [0x938, 0x947, 0x921]), (ascii ''die'', [0x921, 0x93E, 0x908]),
     (ascii ''died'', [0x921, 0x93E, 0x907, 0x921]),
     (ascii ''life'', [0x932, 0x93E, 0x907, 0x92B]),
     (ascii ''born'', [0x92C, 0x949, 0x930, 0x94D, 0x928]),
     (ascii ''married'', [0x92E, 0x948, 0x930, 0x93F, 0x921]),
     (ascii ''marry'', [0x92E, 0x948, 0x930, 0x940]), (ascii ''guess'', [0x917, 0x947, 0x938]),
     (ascii ''forgot'', [0x92B, 0x949, 0x930, 0x917, 0x949, 0x91F]),
     (ascii ''about'', [0x905, 0x92C, 0x93E, 0x909, 0x91F]),
     (ascii ''need'', [0x928, 0x940, 0x921]),
     (ascii ''needing'', [0x928, 0x940, 0x921, 0x93F, 0x902, 0x917]),
     (ascii ''kid'', [0x915, 0x93F, 0x921]),
     (ascii ''child'', [0x91A, 0x93E, 0x907, 0x932, 0x94D, 0x921]),
     (ascii ''suppose'', [0x938, 0x92A, 0x94B, 0x91C, 0x93C]),
     (ascii ''might'', [0x92E, 0x93E, 0x907, 0x91F]), (ascii ''led'', [0x932, 0x947, 0x921]),
     (ascii ''live'', [0x932, 0x93F, 0x935]),
     (ascii ''lived'', [0x932, 0x93F, 0x935, 0x94D, 0x921]),
     (ascii ''long'', [0x932, 0x949, 0x928, 0x94D, 0x917]),
     (ascii ''care'', [0x915, 0x947, 0x92F, 0x930]), (ascii ''take'', [0x91F, 0x947, 0x915]),
     (ascii ''daughter'', [0x921, 0x949, 0x91F, 0x930]),
     (ascii ''remember'', [0x930, 0x93F, 0x92E, 0x947, 0x92E, 0x94D, 0x92C, 0x930]),
     (ascii ''mother'', [0x92E, 0x926, 0x930]), (ascii ''even'', [0x908, 0x935, 0x928]),
     (ascii ''well'', [0x935, 0x947, 0x932]), (ascii ''too'', [0x91F, 0x942]),
     (ascii ''doesnt'', [0x921, 0x91C, 0x93C, 0x928, 0x94D, 0x91F]),
     (ascii ''don't'', [0x921, 0x94B, 0x928, 0x94D, 0x91F]),
     (ascii ''doesn't'', [0x921, 0x91C, 0x93C, 0x928, 0x94D, 0x91F]),
     (ascii ''didn't'', [0x921, 0x93F, 0x921, 0x928, 0x94D, 0x91F]),
     (ascii ''won't'', [0x935, 0x94B, 0x928, 0x94D, 0x91F]),
     (ascii ''can't'', [0x915, 0x93E, 0x928, 0x94D, 0x91F]),
     (ascii ''isn't'', [0x907, 0x91C, 0x93C, 0x928, 0x94D, 0x91F]),
     (ascii ''aren't'', [0x906, 0x930, 0x928, 0x94D, 0x91F]),
     (ascii ''wasn't'', [0x935, 0x949, 0x91C, 0x93C, 0x928, 0x94D, 0x91F]),
     (ascii ''weren't'', [0x935, 0x930, 0x928, 0x94D, 0x91F]),
     (ascii ''i'm'', [0x906, 0x907, 0x92E]), (ascii ''you're'', [0x92F, 0x942, 0x906, 0x930]),
     (ascii ''we're'', [0x935, 0x940, 0x906, 0x930]),
     (ascii ''they're'', [0x926, 0x947, 0x92F, 0x930]),
     (ascii ''it's'', [0x907, 0x91F, 0x94D, 0x938]),
     (ascii ''that's'', [0x926, 0x948, 0x91F, 0x94D, 0x938]),
     (ascii ''what's'', [0x935, 0x94D, 0x939, 0x93E, 0x91F, 0x94D, 0x938]),
     (ascii ''where's'', [0x935, 0x94D, 0x939, 0x947, 0x92F, 0x930, 0x94D, 0x938]),
     (ascii ''who's'', [0x939, 0x942, 0x91C, 0x93C]), (ascii ''ing'', [0x907, 0x902, 0x917]),
     (ascii ''tion'', [0x936, 0x928]), (ascii ''sion'', [0x936, 0x928]), (ascii ''er'', [0x930]),
     (ascii ''ed'', [0x921]), (ascii ''ly'', [0x932, 0x940]), (ascii ''ty'', [0x91F, 0x940]),
     (ascii ''ry'', [0x930, 0x940]), (ascii ''al'', [0x932]), (ascii ''le'', [0x932]),
     (ascii ''ment'', [0x92E, 0x947, 0x902, 0x91F]), (ascii ''ness'', [0x928, 0x947, 0x938]),
     (ascii ''able'', [0x90F, 0x92C, 0x932]), (ascii ''ible'', [0x907, 0x92C, 0x932])]"

definition eng_to_dev_map :: "ustr \<rightharpoonup> ustr" where
  "eng_to_dev_map = dict_of eng_to_dev_items"

section \<open>English to Devanagari transliteration\<close>

text \<open>The characters tested by \<open>in '"\'('\<close> and \<open>in '.,!?;:)\'"...'\<close> (the last one is U+2026).\<close>

definition lead_chars :: ustr where
  "lead_chars = [0x22, 0x27, 0x28]"

definition trail_chars :: ustr where
  "trail_chars = [0x2E, 0x2C, 0x21, 0x3F, 0x3B, 0x3A, 0x29, 0x27, 0x22, 0x2026]"

text \<open>
  The first \<open>while\<close> loop of the word body: \<open>prefix += clean_word[0]\<close>,
  \<open>clean_word = clean_word[1:]\<close>. The result is \<open>(prefix, clean_word)\<close>.
\<close>

fun extract_leading :: "ustr \<Rightarrow> ustr \<Rightarrow> ustr \<times> ustr" where
  "extract_leading prefix [] = (prefix, [])"
| "extract_leading prefix (c # cs) =
     (if c \<in> set lead_chars then extract_leading (prefix @ [c]) cs else (prefix, c # cs))"

text \<open>
  The second loop: \<open>suffix = clean_word[-1] + suffix\<close>, \<open>clean_word = clean_word[:-1]\<close>.
  The result is \<open>(suffix, clean_word)\<close>.
\<close>

function extract_trailing :: "ustr \<Rightarrow> ustr \<Rightarrow> ustr \<times> ustr" where
  "extract_trailing suffix clean_word =
     (if clean_word \<noteq> [] \<and> last clean_word \<in> set trail_chars
      then extract_trailing (last clean_word # suffix) (butlast clean_word)
      else (suffix, clean_word))"
  by pat_completeness auto
termination
  by (relation "measure (\<lambda>(suffix, clean_word). length clean_word)") auto

declare extract_trailing.simps [simp del]

text \<open>
  The \<open>for length in range(min(8, len(word) - i), 0, -1)\<close> loop of
  \<open>_transliterate_word_advanced\<close>: \<open>try_lengths word i n\<close> tries the lengths
  \<open>n, n - 1, ..., 1\<close> and returns the first one whose substring \<open>word[i:i+length]\<close> is a
  key, or \<open>None\<close> when the loop ends with \<open>matched\<close> still false.
\<close>

fun try_lengths :: "ustr \<Rightarrow> nat \<Rightarrow> nat \<Rightarrow> nat option" where
  "try_lengths word i 0 = None"
| "try_lengths word i (Suc n) =
     (if i + Suc n \<le> length word \<and> eng_to_dev_map (take (Suc n) (drop i word)) \<noteq> None
      then Some (Suc n)
      else try_lengths word i n)"

text \<open>The \<open>if not matched\<close> branch: what is appended for the character at \<open>i\<close>.\<close>

definition phonetic_rule :: "unicode_db \<Rightarrow> ustr \<Rightarrow> nat \<Rightarrow> ustr" where
  "phonetic_rule U word i =
     (let char = word ! i in
      if is_alpha U char then
        (if char = 0x79 \<and> i > 0 then [0x940]
         else if char = 0x77 \<and> i < length word - 1 \<and> word ! (i + 1) \<in> set (ascii ''aeiou'')
           then [0x935]
         else (case eng_to_dev_map [char] of Some m \<Rightarrow> m | None \<Rightarrow> [char]))
      else [char])"

lemma try_lengths_pos: "try_lengths word i n = Some l \<Longrightarrow> 0 < l \<and> l \<le> n \<and> i + l \<le> length word"
  by (induction n) (auto split: if_splits)

text \<open>The \<open>while i < len(word)\<close> loop, with its two variables \<open>i\<close> and \<open>result\<close>.\<close>

function advanced_loop :: "unicode_db \<Rightarrow> ustr \<Rightarrow> nat \<Rightarrow> ustr \<Rightarrow> ustr" where
  "advanced_loop U word i result =
     (if i < length word then
        (case try_lengths word i (min 8 (length word - i)) of
           Some l \<Rightarrow>
             advanced_loop U word (i + l) (result @ the (eng_to_dev_map (take l (drop i word))))
         | None \<Rightarrow> advanced_loop U word (i + 1) (result @ phonetic_rule U word i))
      else result)"
  by pat_completeness auto
termination
proof (relation "measure (\<lambda>(U, word, i, result). length word - i)")
  show "wf (measure (\<lambda>(U, word, i, result). length word - i))" by simp
next
  fix U :: unicode_db and word :: ustr and i :: nat and result :: ustr
  assume "i < length word"
  then show "((U, word, i + 1, result @ phonetic_rule U word i), U, word, i, result)
             \<in> measure (\<lambda>(U, word, i, result). length word - i)"
    by simp
next
  fix U :: unicode_db and word :: ustr and i :: nat and result :: ustr and l :: nat
  assume "try_lengths word i (min 8 (length word - i)) = Some l"
  then have "0 < l \<and> i + l \<le> length word"
    using try_lengths_pos [of word i "min 8 (length word - i)" l] by simp
  then show "((U, word, i + l, result @ the (eng_to_dev_map (take l (drop i word)))),
              U, word, i, result) \<in> measure (\<lambda>(U, word, i, result). length word - i)"
    by auto
qed

declare advanced_loop.simps [simp del]

definition transliterate_word_advanced :: "unicode_db \<Rightarrow> ustr \<Rightarrow> ustr" where
  "transliterate_word_advanced U word = advanced_loop U word 0 []"

text \<open>The body of \<open>for word in words\<close>: the string appended to \<open>result_words\<close>.\<close>

definition process_word :: "unicode_db \<Rightarrow> ustr \<Rightarrow> ustr" where
  "process_word U word =
     (case extract_leading [] (str_lower U word) of (prefix, w1) \<Rightarrow>
      (case extract_trailing [] w1 of (suffix, clean_word) \<Rightarrow>
        if clean_word = [] then word
        else (case eng_to_dev_map clean_word of
                Some m \<Rightarrow> prefix @ m @ suffix
              | None \<Rightarrow> prefix @ transliterate_word_advanced U clean_word @ suffix)))"

text \<open>The body of \<open>for line in lines\<close>: the string appended to \<open>result_lines\<close>.\<close>

definition process_line :: "unicode_db \<Rightarrow> ustr \<Rightarrow> ustr" where
  "process_line U line =
     (if strip U line = [] then []
      else join [0x20] (map (process_word U) (split_ws U [] line)))"

definition english_to_devanagari_transliteration :: "unicode_db \<Rightarrow> ustr \<Rightarrow> ustr" where
  "english_to_devanagari_transliteration U text =
     join [0xA] (map (process_line U) (split_sep [0xA] [] text))"

section \<open>Hindi to Roman romanization\<close>

subsection \<open>The cleanup pass \<open>_clean_romanization\<close>\<close>

text \<open>\<open>text.replace('~', '').replace('|', '').replace('^', '')\<close>.\<close>

definition remove_symbols :: "ustr \<Rightarrow> ustr" where
  "remove_symbols text = replace [0x5E] [] (replace [0x7C] [] (replace [0x7E] [] text))"

text \<open>
  The \<open>replacements\<close> dictionary, in the order it is written (a dictionary is iterated in
  insertion order; no key occurs twice). The tenth key is U+00F1.
\<close>

definition replacements :: "(ustr \<times> ustr) list" where
  "replacements =
    [(ascii ''aa'', ascii ''aa''), (ascii ''ii'', ascii ''ee''), (ascii ''uu'', ascii ''oo''),
     (ascii ''R^i'', ascii ''ri''), (ascii ''RRi'', ascii ''ri''), (ascii ''kh'', ascii ''kh''),
     (ascii ''gh'', ascii ''gh''), (ascii ''ch'', ascii ''ch''), (ascii ''jh'', ascii ''jh''),
     ([0xF1], ascii ''ny''), (ascii ''th'', ascii ''th''), (ascii ''dh'', ascii ''dh''),
     (ascii ''ph'', ascii ''ph''), (ascii ''bh'', ascii ''bh''), (ascii ''sh'', ascii ''sh''),
     (ascii ''M'', ascii ''m''), (ascii ''H'', ascii ''h''), (ascii ''.n'', ascii ''n''),
     (ascii ''.m'', ascii ''m''), (ascii ''.h'', ascii ''h''), (ascii ''.t'', ascii ''t''),
     (ascii ''.d'', ascii ''d''), (ascii ''.s'', ascii ''s''), (ascii ''.r'', ascii ''r''),
     (ascii ''.l'', ascii ''l''), (ascii ''ti'', ascii ''ti''), (ascii ''te'', ascii ''te''),
     (ascii ''ta'', ascii ''ta''), (ascii ''tu'', ascii ''tu''), (ascii ''ni'', ascii ''ni''),
     (ascii ''ne'', ascii ''ne''), (ascii ''na'', ascii ''na''), (ascii ''nu'', ascii ''nu''),
     (ascii '' .'', ascii ''.''), (ascii '' ,'', ascii '',''), (ascii '' !'', ascii ''!''),
     (ascii '' ?'', ascii ''?''), (ascii '' ;'', ascii '';''), (ascii '' :'', ascii '':''),
     ([0x27, 0x20], [0x27]), ([0x20, 0x22], [0x22])]"

text \<open>\<open>for old, new in replacements.items(): text = text.replace(old, new)\<close>.\<close>

fun replace_each :: "(ustr \<times> ustr) list \<Rightarrow> ustr \<Rightarrow> ustr" where
  "replace_each [] text = text"
| "replace_each ((old, new) # rest) text = replace_each rest (replace old new text)"

text \<open>The body of \<open>for sentence in sentences\<close>: the string appended to \<open>capitalized\<close>.\<close>

definition capitalize_sentence :: "unicode_db \<Rightarrow> ustr \<Rightarrow> ustr" where
  "capitalize_sentence U sentence =
     (if sentence \<noteq> [] then
        (let sentence = strip U sentence in
         if sentence \<noteq> [] then
           (if length sentence > 1 then str_upper U [hd sentence] @ tl sentence
            else str_upper U sentence)
         else sentence)
      else sentence)"

fun capitalize_all :: "unicode_db \<Rightarrow> ustr list \<Rightarrow> ustr list" where
  "capitalize_all U [] = []"
| "capitalize_all U (sentence # rest) = capitalize_sentence U sentence # capitalize_all U rest"

text \<open>\<open>if result and result[0].islower(): result = result[0].upper() + result[1:]\<close>.\<close>

definition ensure_first_upper :: "unicode_db \<Rightarrow> ustr \<Rightarrow> ustr" where
  "ensure_first_upper U result =
     (if result \<noteq> [] \<and> is_lower U (hd result) then str_upper U [hd result] @ tl result
      else result)"

definition clean_romanization :: "unicode_db \<Rightarrow> ustr \<Rightarrow> ustr" where
  "clean_romanization U text =
     (let text = remove_symbols text;
          text = replace_each replacements text;
          sentences = split_sep (ascii ''. '') [] text;
          capitalized = capitalize_all U sentences;
          result = join (ascii ''. '') capitalized
      in ensure_first_upper U result)"

subsection \<open>The fallback \<open>_enhanced_manual_hindi_to_roman\<close>\<close>

definition enhanced_items :: "(ustr \<times> ustr) list" where
  "enhanced_items =
    [([0x905], ascii ''a''), ([0x906], ascii ''aa''), ([0x907], ascii ''i''),
     ([0x908], ascii ''ee''), ([0x909], ascii ''u''), ([0x90A], ascii ''oo''),
     ([0x90F], ascii ''e''), ([0x910], ascii ''ai''), ([0x913], ascii ''o''),
     ([0x914], ascii ''au''), ([0x905, 0x902], ascii ''an''), ([0x905, 0x903], ascii ''ah''),
     ([0x915], ascii ''k''), ([0x916], ascii ''kh''), ([0x917], ascii ''g''),
     ([0x918], ascii ''gh''), ([0x919], ascii ''ng''), ([0x91A], ascii ''ch''),
     ([0x91B], ascii ''chh''), ([0x91C], ascii ''j''), ([0x91D], ascii ''jh''),
     ([0x91E], ascii ''ny''), ([0x91F], ascii ''t''), ([0x920], ascii ''th''),
     ([0x921], ascii ''d''), ([0x922], ascii ''dh''), ([0x923], ascii ''n''),
     ([0x924], ascii ''t''), ([0x925], ascii ''th''), ([0x926], ascii ''d''),
     ([0x927], ascii ''dh''), ([0x928], ascii ''n''), ([0x92A], ascii ''p''),
     ([0x92B], ascii ''ph''), ([0x92C], ascii ''b''), ([0x92D], ascii ''bh''),
     ([0x92E], ascii ''m''), ([0x92F], ascii ''y''), ([0x930], ascii ''r''),
     ([0x932], ascii ''l''), ([0x935], ascii ''v''), ([0x936], ascii ''sh''),
     ([0x937], ascii ''sh''), ([0x938], ascii ''s''), ([0x939], ascii ''h''),
     ([0x915, 0x94D, 0x937], ascii ''ksh''), ([0x924, 0x94D, 0x930], ascii ''tr''),
     ([0x91C, 0x94D, 0x91E], ascii ''gya''), ([0x90B], ascii ''ri''), ([0x950], ascii ''om''),
     ([0x93E], ascii ''aa''), ([0x93F], ascii ''i''), ([0x940], ascii ''ee''),
     ([0x941], ascii ''u''), ([0x942], ascii ''oo''), ([0x947], ascii ''e''),
     ([0x948], ascii ''ai''), ([0x94B], ascii ''o''), ([0x94C], ascii ''au''),
     ([0x902], ascii ''n''), ([0x903], ascii ''h''), ([0x94D], []), ([0x901], ascii ''n'')]"

definition enhanced_map :: "ustr \<rightharpoonup> ustr" where
  "enhanced_map = dict_of enhanced_items"

text \<open>
  What \<open>result +=\<close> appends for one character. The source has three branches; the last
  two append the character itself.
\<close>

definition manual_char :: "unicode_db \<Rightarrow> cp \<Rightarrow> ustr" where
  "manual_char U char =
     (case enhanced_map [char] of
        Some r \<Rightarrow> r
      | None \<Rightarrow> if is_space U char \<or> \<not> is_alpha U char then [char] else [char])"

text \<open>The \<open>for char in hindi_text\<close> loop, with its variable \<open>result\<close>.\<close>

fun manual_loop :: "unicode_db \<Rightarrow> ustr \<Rightarrow> ustr \<Rightarrow> ustr" where
  "manual_loop U result [] = result"
| "manual_loop U result (char # rest) = manual_loop U (result @ manual_char U char) rest"

definition enhanced_manual_hindi_to_roman :: "unicode_db \<Rightarrow> ustr \<Rightarrow> ustr" where
  "enhanced_manual_hindi_to_roman U hindi_text =
     clean_romanization U (manual_loop U [] hindi_text)"

subsection \<open>The entry point \<open>hindi_to_roman_transliteration\<close>\<close>




section \<open>Auxiliary definitions for stating and checking properties\<close>

text \<open>
  A dictionary lookup that walks the literal once and lets a later pair win; it computes
  the same function as \<open>dict_of\<close> and is what concrete lookups are evaluated with.
\<close>

fun dict_get :: "(ustr \<times> ustr) list \<Rightarrow> ustr \<Rightarrow> ustr option" where
  "dict_get [] k = None"
| "dict_get ((k', v) # items) k =
     (case dict_get items k of Some v' \<Rightarrow> Some v' | None \<Rightarrow> if k' = k then Some v else None)"



text \<open>
  The cursor positions at which the \<open>while\<close> loop of \<open>_transliterate_word_advanced\<close>
  leaves its \<open>for\<close> loop with \<open>matched\<close> false and so runs the phonetic rules. The
  function follows the cursor exactly as \<open>advanced_loop\<close> does and records instead of
  translating.
\<close>

function unmatched_positions :: "ustr \<Rightarrow> nat \<Rightarrow> nat list" where
  "unmatched_positions word i =
     (if i < length word then
        (case try_lengths word i (min 8 (length word - i)) of
           Some l \<Rightarrow> unmatched_positions word (i + l)
         | None \<Rightarrow> i # unmatched_positions word (i + 1))
      else [])"
  by pat_completeness auto
termination
proof (relation "measure (\<lambda>(word, i). length word - i)")
  show "wf (measure (\<lambda>(word, i). length word - i))" by simp
next
  fix word :: ustr and i :: nat
  assume "i < length word"
  then show "((word, i + 1), word, i) \<in> measure (\<lambda>(word, i). length word - i)"
    by simp
next
  fix word :: ustr and i :: nat and l :: nat
  assume "try_lengths word i (min 8 (length word - i)) = Some l"
  then have "0 < l \<and> i + l \<le> length word"
    using try_lengths_pos [of word i "min 8 (length word - i)" l] by simp
  then show "((word, i + l), word, i) \<in> measure (\<lambda>(word, i). length word - i)"
    by auto
qed

declare unmatched_positions.simps [simp del]

text \<open>The three characters the cleanup pass removes first: \<open>~\<close>, \<open>|\<close>, \<open>^\<close>.\<close>

definition symbols :: "cp set" where
  "symbols = {0x7E, 0x7C, 0x5E}"

section \<open>Evaluating the tables and the cleanup pass\<close>

lemma dict_of_get: "dict_of items k = dict_get items k"
  unfolding dict_of_def by (induction items) (auto simp: map_add_def split: option.splits)

lemma dict_get_cong: "k = k' \<Longrightarrow> dict_get items k = dict_get items k'"
  by simp

lemma dict_of_SomeD: "dict_of items k = Some v \<Longrightarrow> (k, v) \<in> set items"
  unfolding dict_of_def by (auto dest: map_of_SomeD)

lemma enhanced_map_tilde: "enhanced_map [0x7E] = None"
  unfolding enhanced_map_def dict_of_get enhanced_items_def
  by (simp add: ascii_def cong: dict_get_cong)

lemmas clean_eval = remove_symbols_def replacements_def replace_def
  replace_ne.simps split_sep.simps capitalize_sentence_def strip_def ensure_first_upper_def
  py_def py_upper_cp_def py_islower_def py_isspace_def ascii_def

lemma clean_tilde: "clean_romanization U [0x7E] = []"
  unfolding clean_romanization_def Let_def by (simp add: clean_eval)

section \<open>The transliteration of one word\<close>

lemma extract_leading_eq:
  "extract_leading prefix w =
     (prefix @ takeWhile (\<lambda>c. c \<in> set lead_chars) w, dropWhile (\<lambda>c. c \<in> set lead_chars) w)"
  by (induction w arbitrary: prefix) simp_all

lemma extract_trailing_eq:
  "extract_trailing suffix w =
     (rev (takeWhile (\<lambda>c. c \<in> set trail_chars) (rev w)) @ suffix,
      rev (dropWhile (\<lambda>c. c \<in> set trail_chars) (rev w)))"
proof (induction suffix w rule: extract_trailing.induct)
  case (1 suffix clean_word)
  show ?case
  proof (cases "clean_word \<noteq> [] \<and> last clean_word \<in> set trail_chars")
    case True
    then have split: "rev clean_word = last clean_word # rev (butlast clean_word)"
      by (metis append_butlast_last_id rev.simps(2) rev_rev_ident rev_swap singleton_rev_conv append_Cons append_Nil)
    from True "1.IH" show ?thesis
      by (subst extract_trailing.simps) (simp add: split)
  next
    case False
    then show ?thesis
      by (subst extract_trailing.simps) (cases clean_word rule: rev_cases; simp)
  qed
qed

lemma try_lengths_Some_key:
  "try_lengths word i n = Some l \<Longrightarrow> eng_to_dev_map (take l (drop i word)) \<noteq> None"
  by (induction n) (auto split: if_splits)

subsection \<open>Lookups and words used in the examples\<close>

lemma eng_to_dev_map_Nil: "eng_to_dev_map [] = None"
  unfolding eng_to_dev_map_def dict_of_get eng_to_dev_items_def
  by (simp add: ascii_def cong: dict_get_cong)

lemma lookup_the: "eng_to_dev_map (ascii ''the'') = Some [0x926]"
  unfolding eng_to_dev_map_def dict_of_get eng_to_dev_items_def
  by (simp add: ascii_def cong: dict_get_cong)

lemma lookup_boy: "eng_to_dev_map (ascii ''boy'') = Some [0x92C, 0x949, 0x92F]"
  unfolding eng_to_dev_map_def dict_of_get eng_to_dev_items_def
  by (simp add: ascii_def cong: dict_get_cong)

lemma lookup_think: "eng_to_dev_map (ascii ''think'') = Some [0x925, 0x93F, 0x902, 0x915]"
  unfolding eng_to_dev_map_def dict_of_get eng_to_dev_items_def
  by (simp add: ascii_def cong: dict_get_cong)

lemmas lookups_cp = lookup_the [unfolded ascii_def, simplified]
  lookup_boy [unfolded ascii_def, simplified] lookup_think [unfolded ascii_def, simplified]

lemmas word_eval = process_word_def extract_trailing.simps lead_chars_def trail_chars_def
  py_def py_lower_cp_def ascii_def

lemma word_the: "process_word py (ascii ''the'') = [0x926]"
  by (simp add: word_eval lookups_cp)

lemma word_boy: "process_word py (ascii ''boy'') = [0x92C, 0x949, 0x92F]"
  by (simp add: word_eval lookups_cp)

lemma word_think: "process_word py (ascii ''Think'') = [0x925, 0x93F, 0x902, 0x915]"
  by (simp add: word_eval lookups_cp)

lemma split_the_boy: "split_ws py [] (ascii ''the boy'') = [ascii ''the'', ascii ''boy'']"
  by (simp add: ascii_def py_def py_isspace_def)

lemma lookups_hello:
  "eng_to_dev_map (ascii ''hello'') = None" "eng_to_dev_map (ascii ''hell'') = None"
  "eng_to_dev_map (ascii ''hel'') = None" "eng_to_dev_map (ascii ''he'') = None"
  "eng_to_dev_map (ascii ''h'') = Some [0x939]"
  "eng_to_dev_map (ascii ''ello'') = None" "eng_to_dev_map (ascii ''ell'') = None"
  "eng_to_dev_map (ascii ''el'') = None" "eng_to_dev_map (ascii ''e'') = Some [0x908]"
  "eng_to_dev_map (ascii ''llo'') = None" "eng_to_dev_map (ascii ''ll'') = None"
  "eng_to_dev_map (ascii ''l'') = Some [0x932]"
  "eng_to_dev_map (ascii ''lo'') = None" "eng_to_dev_map (ascii ''o'') = Some [0x913]"
  unfolding eng_to_dev_map_def dict_of_get eng_to_dev_items_def
  by (simp_all add: ascii_def cong: dict_get_cong)

lemmas lookups_hello_cp = lookups_hello [unfolded ascii_def, simplified]

lemma try_lengths_unfold:
  "try_lengths word i n =
     (if n = 0 then None
      else if i + n \<le> length word \<and> eng_to_dev_map (take n (drop i word)) \<noteq> None then Some n
      else try_lengths word i (n - 1))"
  by (cases n) auto

lemma advanced_hello:
  "transliterate_word_advanced U (ascii ''hello'') = [0x939, 0x908, 0x932, 0x932, 0x913]"
  by (simp add: transliterate_word_advanced_def advanced_loop.simps try_lengths_unfold
      lookups_hello_cp ascii_def)

lemma word_hello:
  "process_word py ([0x22] @ ascii ''hello!'') = [0x22, 0x939, 0x908, 0x932, 0x932, 0x913, 0x21]"
  using advanced_hello [of py]
  by (simp add: word_eval lookups_hello_cp)

lemma try_lengths_longest:
  assumes "1 \<le> l" and "l \<le> n" and "i + l \<le> length word"
    and "eng_to_dev_map (take l (drop i word)) \<noteq> None"
    and "\<forall>l'. l < l' \<and> l' \<le> n \<longrightarrow> eng_to_dev_map (take l' (drop i word)) = None"
  shows "try_lengths word i n = Some l"
  using assms
proof (induction n)
  case 0
  then show ?case by simp
next
  case (Suc n)
  show ?case
  proof (cases "l = Suc n")
    case True
    with Suc.prems show ?thesis by simp
  next
    case False
    with Suc.prems have "l \<le> n" and "eng_to_dev_map (take (Suc n) (drop i word)) = None"
      by auto
    with Suc show ?thesis by simp
  qed
qed

lemma try_lengths_None:
  "(\<forall>l'. 1 \<le> l' \<and> l' \<le> n \<longrightarrow> eng_to_dev_map (take l' (drop i word)) = None)
   \<Longrightarrow> try_lengths word i n = None"
  by (induction n) auto

lemma lookups_t_h_e:
  "eng_to_dev_map (ascii ''t'') = Some [0x91F]" "eng_to_dev_map (ascii ''h'') = Some [0x939]"
  "eng_to_dev_map (ascii ''e'') = Some [0x908]"
  unfolding eng_to_dev_map_def dict_of_get eng_to_dev_items_def
  by (simp_all add: ascii_def cong: dict_get_cong)

lemma advanced_the: "transliterate_word_advanced U (ascii ''the'') = [0x926]"
  by (simp add: transliterate_word_advanced_def advanced_loop.simps try_lengths_unfold
      lookups_cp ascii_def)

text \<open>
  Claim C1. A token whose core (what is left of the lower-cased token once the two loops
  have taken the leading and the trailing punctuation off) is a key of the phonetic table
  is emitted as prefix, then the value of that key, then suffix. The input
  \<open>the boy\<close> gives U+0926, a space, U+092C U+0949 U+092F, and the token \<open>Think\<close> gives the
  value of the key \<open>think\<close>.
\<close>

theorem whole_word_precedence:
  "(extract_leading [] (str_lower U word) = (prefix, w1)
      \<and> extract_trailing [] w1 = (suffix, core) \<and> eng_to_dev_map core = Some m
    \<longrightarrow> process_word U word = prefix @ m @ suffix)
   \<and> english_to_devanagari_transliteration py (ascii ''the boy'') =
       [0x926, 0x20, 0x92C, 0x949, 0x92F]
   \<and> process_word py (ascii ''Think'') = [0x925, 0x93F, 0x902, 0x915]"
proof (intro conjI impI)
  assume a: "extract_leading [] (str_lower U word) = (prefix, w1)
      \<and> extract_trailing [] w1 = (suffix, core) \<and> eng_to_dev_map core = Some m"
  then have "core \<noteq> []"
    using eng_to_dev_map_Nil by auto
  with a show "process_word U word = prefix @ m @ suffix"
    by (simp add: process_word_def)
next
  have "split_sep [0xA] [] (ascii ''the boy'') = [ascii ''the boy'']"
    by (simp add: ascii_def split_sep.simps)
  moreover have "strip py (ascii ''the boy'') \<noteq> []"
    by (simp add: ascii_def strip_def py_def py_isspace_def)
  ultimately show "english_to_devanagari_transliteration py (ascii ''the boy'') =
       [0x926, 0x20, 0x92C, 0x949, 0x92F]"
    by (simp add: english_to_devanagari_transliteration_def process_line_def split_the_boy
        word_the word_boy)
next
  show "process_word py (ascii ''Think'') = [0x925, 0x93F, 0x902, 0x915]"
    by (rule word_think)
qed

theorem whole_word_precedence_witness:
  "process_word py (ascii ''the'') = [] @ [0x926] @ []"
proof -
  have 1: "extract_leading [] (str_lower py (ascii ''the'')) = ([], ascii ''the'')"
    by (simp add: word_eval)
  have 2: "extract_trailing [] (ascii ''the'') = ([], ascii ''the'')"
    by (simp add: word_eval)
  show ?thesis
    using whole_word_precedence
      [of py "ascii ''the''" "[]" "ascii ''the''" "[]" "ascii ''the''" "[0x926]"]
      1 2 lookup_the by simp
qed

lemma hd_dropWhile_not: "dropWhile P xs \<noteq> [] \<Longrightarrow> \<not> P (hd (dropWhile P xs))"
  by (induction xs) auto

text \<open>
  Claim C3. For every token, the prefix taken off is the longest prefix of the lower-cased
  token made of the characters \<open>"\<close>, \<open>'\<close>, \<open>(\<close>, the suffix taken off is the longest
  suffix of the remainder made of the ten trailing characters, and the lower-cased token
  is prefix, core, suffix in this order. A token with an empty core is emitted as it was
  written; otherwise the output is the prefix, the transliterated core, the suffix. The
  token made of a double quote, \<open>hello\<close> and an exclamation mark gives the double quote,
  the five values for \<open>h\<close>, \<open>e\<close>, \<open>l\<close>, \<open>l\<close>, \<open>o\<close>, and the exclamation mark.
\<close>

theorem punctuation_round_trip:
  "(let lw = str_lower U word;
        prefix = takeWhile (\<lambda>c. c \<in> set lead_chars) lw;
        rest = dropWhile (\<lambda>c. c \<in> set lead_chars) lw;
        suffix = rev (takeWhile (\<lambda>c. c \<in> set trail_chars) (rev rest));
        core = rev (dropWhile (\<lambda>c. c \<in> set trail_chars) (rev rest))
    in lw = prefix @ core @ suffix
       \<and> (core \<noteq> [] \<longrightarrow> hd core \<notin> set lead_chars \<and> last core \<notin> set trail_chars)
       \<and> process_word U word =
           (if core = [] then word
            else prefix @
              (case eng_to_dev_map core of
                 Some m \<Rightarrow> m
               | None \<Rightarrow> transliterate_word_advanced U core) @ suffix))
   \<and> english_to_devanagari_transliteration py ([0x22] @ ascii ''hello!'') =
       [0x22, 0x939, 0x908, 0x932, 0x932, 0x913, 0x21]"
proof (intro conjI)
  define lw where "lw = str_lower U word"
  define prefix where "prefix = takeWhile (\<lambda>c. c \<in> set lead_chars) lw"
  define rest where "rest = dropWhile (\<lambda>c. c \<in> set lead_chars) lw"
  define suffix where "suffix = rev (takeWhile (\<lambda>c. c \<in> set trail_chars) (rev rest))"
  define core where "core = rev (dropWhile (\<lambda>c. c \<in> set trail_chars) (rev rest))"
  have rest_eq: "rest = core @ suffix"
    unfolding core_def suffix_def
    by (metis rev_append rev_rev_ident takeWhile_dropWhile_id)
  have "lw = prefix @ rest"
    unfolding prefix_def rest_def by simp
  with rest_eq have whole: "lw = prefix @ core @ suffix"
    by simp
  have maximal: "hd core \<notin> set lead_chars \<and> last core \<notin> set trail_chars" if "core \<noteq> []"
  proof
    from that rest_eq have "rest \<noteq> []" and "hd core = hd rest" by auto
    then show "hd core \<notin> set lead_chars"
      unfolding rest_def using hd_dropWhile_not [of "\<lambda>c. c \<in> set lead_chars" lw] by simp
    from that have "dropWhile (\<lambda>c. c \<in> set trail_chars) (rev rest) \<noteq> []"
      unfolding core_def by simp
    then show "last core \<notin> set trail_chars"
      unfolding core_def
      using hd_dropWhile_not [of "\<lambda>c. c \<in> set trail_chars" "rev rest"]
      by (simp add: last_rev)
  qed
  have word: "process_word U word =
           (if core = [] then word
            else prefix @
              (case eng_to_dev_map core of
                 Some m \<Rightarrow> m
               | None \<Rightarrow> transliterate_word_advanced U core) @ suffix)"
    unfolding process_word_def extract_leading_eq extract_trailing_eq
    by (simp add: lw_def prefix_def rest_def suffix_def core_def split: option.splits)
  from whole maximal word
  show "let lw = str_lower U word;
        prefix = takeWhile (\<lambda>c. c \<in> set lead_chars) lw;
        rest = dropWhile (\<lambda>c. c \<in> set lead_chars) lw;
        suffix = rev (takeWhile (\<lambda>c. c \<in> set trail_chars) (rev rest));
        core = rev (dropWhile (\<lambda>c. c \<in> set trail_chars) (rev rest))
    in lw = prefix @ core @ suffix
       \<and> (core \<noteq> [] \<longrightarrow> hd core \<notin> set lead_chars \<and> last core \<notin> set trail_chars)
       \<and> process_word U word =
           (if core = [] then word
            else prefix @
              (case eng_to_dev_map core of
                 Some m \<Rightarrow> m
               | None \<Rightarrow> transliterate_word_advanced U core) @ suffix)"
    unfolding Let_def lw_def prefix_def rest_def suffix_def core_def by blast
next
  have "split_sep [0xA] [] ([0x22] @ ascii ''hello!'') = [[0x22] @ ascii ''hello!'']"
    by (simp add: ascii_def split_sep.simps)
  moreover have "strip py ([0x22] @ ascii ''hello!'') \<noteq> []"
    by (simp add: ascii_def strip_def py_def py_isspace_def)
  moreover have "split_ws py [] ([0x22] @ ascii ''hello!'') = [[0x22] @ ascii ''hello!'']"
    by (simp add: ascii_def py_def py_isspace_def)
  ultimately show "english_to_devanagari_transliteration py ([0x22] @ ascii ''hello!'') =
       [0x22, 0x939, 0x908, 0x932, 0x932, 0x913, 0x21]"
    using word_hello
    by (simp add: english_to_devanagari_transliteration_def process_line_def)
qed

theorem punctuation_round_trip_witness:
  "process_word py (ascii ''(The),'') = ascii ''('' @ [0x926] @ ascii ''),''
   \<and> process_word py (ascii ''...'') = ascii ''...''"
proof -
  have 1: "process_word py (ascii ''(The),'') = ascii ''('' @ [0x926] @ ascii ''),''"
    using punctuation_round_trip [of py "ascii ''(The),''"]
    by (simp add: Let_def lookups_cp lead_chars_def trail_chars_def py_def py_lower_cp_def ascii_def)
  have 2: "process_word py (ascii ''...'') = ascii ''...''"
    by (simp add: word_eval)
  from 1 2 show ?thesis by simp
qed

text \<open>
  Claim C2. At a cursor position \<open>i\<close> inside the word, if \<open>l\<close> is the greatest length
  between 1 and \<open>min(8, len(word) - i)\<close> whose substring at \<open>i\<close> is a key, the \<open>for\<close> loop
  stops at \<open>l\<close>, the value of that substring is appended and the cursor moves to
  \<open>i + l\<close>; if no such length exists the phonetic rule for the character is appended
  and the cursor moves by one; at the end of the word the loop returns. The word \<open>the\<close>
  gives the value of the key \<open>the\<close>, which is not the values of \<open>t\<close>, \<open>h\<close>, \<open>e\<close> put
  together.
\<close>

theorem greedy_longest_match:
  "(i < length word \<and> 1 \<le> l \<and> l \<le> min 8 (length word - i)
      \<and> eng_to_dev_map (take l (drop i word)) = Some m
      \<and> (\<forall>l'. l < l' \<and> l' \<le> min 8 (length word - i)
            \<longrightarrow> eng_to_dev_map (take l' (drop i word)) = None)
    \<longrightarrow> try_lengths word i (min 8 (length word - i)) = Some l
        \<and> advanced_loop U word i result = advanced_loop U word (i + l) (result @ m))
   \<and> (i < length word
      \<and> (\<forall>l'. 1 \<le> l' \<and> l' \<le> min 8 (length word - i)
            \<longrightarrow> eng_to_dev_map (take l' (drop i word)) = None)
    \<longrightarrow> advanced_loop U word i result =
          advanced_loop U word (i + 1) (result @ phonetic_rule U word i))
   \<and> (length word \<le> i \<longrightarrow> advanced_loop U word i result = result)
   \<and> transliterate_word_advanced U (ascii ''the'') = the (eng_to_dev_map (ascii ''the''))
   \<and> transliterate_word_advanced U (ascii ''the'') \<noteq>
       the (eng_to_dev_map (ascii ''t'')) @ the (eng_to_dev_map (ascii ''h''))
         @ the (eng_to_dev_map (ascii ''e''))"
proof (intro conjI impI)
  assume a: "i < length word \<and> 1 \<le> l \<and> l \<le> min 8 (length word - i)
      \<and> eng_to_dev_map (take l (drop i word)) = Some m
      \<and> (\<forall>l'. l < l' \<and> l' \<le> min 8 (length word - i)
            \<longrightarrow> eng_to_dev_map (take l' (drop i word)) = None)"
  then have "i + l \<le> length word" by auto
  with a show t: "try_lengths word i (min 8 (length word - i)) = Some l"
    by (intro try_lengths_longest) simp_all
  from a t show "advanced_loop U word i result = advanced_loop U word (i + l) (result @ m)"
    by (subst advanced_loop.simps) simp
next
  assume a: "i < length word
      \<and> (\<forall>l'. 1 \<le> l' \<and> l' \<le> min 8 (length word - i)
            \<longrightarrow> eng_to_dev_map (take l' (drop i word)) = None)"
  then have "try_lengths word i (min 8 (length word - i)) = None"
    by (intro try_lengths_None) simp
  with a show "advanced_loop U word i result =
          advanced_loop U word (i + 1) (result @ phonetic_rule U word i)"
    by (subst advanced_loop.simps) simp
next
  assume "length word \<le> i"
  then show "advanced_loop U word i result = result"
    by (subst advanced_loop.simps) simp
next
  show "transliterate_word_advanced U (ascii ''the'') = the (eng_to_dev_map (ascii ''the''))"
    by (simp add: advanced_the lookup_the)
next
  show "transliterate_word_advanced U (ascii ''the'') \<noteq>
       the (eng_to_dev_map (ascii ''t'')) @ the (eng_to_dev_map (ascii ''h''))
         @ the (eng_to_dev_map (ascii ''e''))"
    by (simp add: advanced_the lookups_t_h_e)
qed

theorem greedy_longest_match_witness:
  "advanced_loop py (ascii ''the'') 0 [] = advanced_loop py (ascii ''the'') 3 [0x926]
   \<and> advanced_loop py (ascii ''the'') 3 [0x926] = [0x926]
   \<and> advanced_loop py [0x2D] 0 [] = advanced_loop py [0x2D] 1 (phonetic_rule py [0x2D] 0)"
proof -
  have none: "eng_to_dev_map [0x2D] = None"
    unfolding eng_to_dev_map_def dict_of_get eng_to_dev_items_def
    by (simp add: ascii_def cong: dict_get_cong)
  have 1: "advanced_loop py (ascii ''the'') 0 [] = advanced_loop py (ascii ''the'') 3 [0x926]"
    using greedy_longest_match [of 0 "ascii ''the''" 3 "[0x926]" py "[]"]
    by (simp add: ascii_def lookups_cp)
  have 2: "advanced_loop py (ascii ''the'') 3 [0x926] = [0x926]"
    using greedy_longest_match [of 3 "ascii ''the''" 3 "[0x926]" py "[0x926]"]
    by (simp add: ascii_def)
  have "\<forall>l'. 1 \<le> l' \<and> l' \<le> min 8 (length [0x2D :: nat] - 0)
          \<longrightarrow> eng_to_dev_map (take l' (drop 0 [0x2D])) = None"
    using none by (auto simp: le_Suc_eq)
  then have 3: "advanced_loop py [0x2D] 0 [] = advanced_loop py [0x2D] 1 (phonetic_rule py [0x2D] 0)"
    using greedy_longest_match [of 0 "[0x2D]" 1 "[]" py "[]"] by simp
  from 1 2 3 show ?thesis by simp
qed

lemma letter_keys:
  "\<forall>c \<in> set (ascii ''abcdefghijklmnopqrstuvwxyz''). eng_to_dev_map [c] \<noteq> None"
  unfolding eng_to_dev_map_def dict_of_get eng_to_dev_items_def
  by (simp add: ascii_def cong: dict_get_cong)

lemma letters_upt: "ascii ''abcdefghijklmnopqrstuvwxyz'' = [0x61 ..< 0x7B]"
  by (simp add: ascii_def)

lemma letter_is_key: "0x61 \<le> c \<Longrightarrow> c \<le> 0x7A \<Longrightarrow> eng_to_dev_map [c] \<noteq> None"
proof -
  assume "0x61 \<le> c" and "c \<le> 0x7A"
  then have "c \<in> {0x61 ..< 0x7B}" by simp
  then have "c \<in> set [0x61 ..< 0x7B]" by (simp only: set_upt)
  then show ?thesis
    using letter_keys unfolding letters_upt by blast
qed

lemma try_lengths_single:
  "i < length word \<Longrightarrow> eng_to_dev_map [word ! i] \<noteq> None \<Longrightarrow> 1 \<le> n
   \<Longrightarrow> try_lengths word i n \<noteq> None"
proof (induction n)
  case 0
  then show ?case by simp
next
  case (Suc n)
  show ?case
  proof (cases n)
    case 0
    from Suc.prems have "take (Suc 0) (drop i word) = [word ! i]"
      by (simp add: take_Suc_conv_app_nth)
    with Suc.prems 0 show ?thesis by simp
  next
    case (Suc k)
    with Suc.IH Suc.prems show ?thesis by simp
  qed
qed

lemma lowercase_always_matches:
  assumes "\<forall>c \<in> set word. 0x61 \<le> c \<and> c \<le> 0x7A" and "i < length word"
  shows "try_lengths word i (min 8 (length word - i)) \<noteq> None"
proof -
  from assms have "eng_to_dev_map [word ! i] \<noteq> None"
    using letter_is_key [of "word ! i"] by simp
  with assms(2) show ?thesis
    by (intro try_lengths_single) simp_all
qed

lemma lowercase_unmatched_positions:
  "\<forall>c \<in> set word. 0x61 \<le> c \<and> c \<le> 0x7A \<Longrightarrow> unmatched_positions word i = []"
proof (induction word i rule: unmatched_positions.induct)
  case (1 word i)
  show ?case
  proof (cases "i < length word")
    case True
    then obtain l where l: "try_lengths word i (min 8 (length word - i)) = Some l"
      using lowercase_always_matches [OF "1.prems" True] by auto
    with True "1.IH" "1.prems" have "unmatched_positions word (i + l) = []"
      by blast
    with True l show ?thesis
      by (subst unmatched_positions.simps) simp
  next
    case False
    then show ?thesis by (subst unmatched_positions.simps) simp
  qed
qed

lemma unmatched_positions_independent:
  "unmatched_positions word i = [] \<Longrightarrow> advanced_loop U word i result = advanced_loop U' word i result"
proof (induction word i arbitrary: result rule: unmatched_positions.induct)
  case (1 word i)
  show ?case
  proof (cases "i < length word")
    case True
    show ?thesis
    proof (cases "try_lengths word i (min 8 (length word - i))")
      case None
      with True "1.prems" show ?thesis
        by (subst (asm) unmatched_positions.simps) simp
    next
      case (Some l)
      with True "1.prems" have "unmatched_positions word (i + l) = []"
        by (subst (asm) unmatched_positions.simps) simp
      with True Some "1.IH"
      have "advanced_loop U word (i + l) r = advanced_loop U' word (i + l) r" for r
        by blast
      with True Some show ?thesis
        by (subst advanced_loop.simps, subst (2) advanced_loop.simps) simp
    qed
  next
    case False
    then show ?thesis
      by (subst advanced_loop.simps, subst (2) advanced_loop.simps) simp
  qed
qed

text \<open>
  Claim C10. Every lower-case ASCII letter is a key of the phonetic table. Hence, in a
  word of lower-case ASCII letters, the \<open>for\<close> loop finds a key at every position, the
  \<open>if not matched\<close> branch with its phonetic rules is entered at no cursor position, and
  the result does not depend on the character database those rules consult.
\<close>

theorem heuristics_unreachable_for_lowercase_ascii:
  "(\<forall>c. 0x61 \<le> c \<and> c \<le> 0x7A \<longrightarrow> eng_to_dev_map [c] \<noteq> None)
   \<and> ((\<forall>c \<in> set word. 0x61 \<le> c \<and> c \<le> 0x7A)
      \<longrightarrow> (\<forall>i < length word. try_lengths word i (min 8 (length word - i)) \<noteq> None)
        \<and> unmatched_positions word 0 = []
        \<and> transliterate_word_advanced U word = transliterate_word_advanced U' word)"
proof (intro conjI impI allI)
  fix c :: nat
  assume "0x61 \<le> c \<and> c \<le> 0x7A"
  then show "eng_to_dev_map [c] \<noteq> None"
    using letter_is_key by simp
next
  fix i
  assume "\<forall>c \<in> set word. 0x61 \<le> c \<and> c \<le> 0x7A" and "i < length word"
  then show "try_lengths word i (min 8 (length word - i)) \<noteq> None"
    by (rule lowercase_always_matches)
next
  assume a: "\<forall>c \<in> set word. 0x61 \<le> c \<and> c \<le> 0x7A"
  then show u: "unmatched_positions word 0 = []"
    by (rule lowercase_unmatched_positions)
  then show "transliterate_word_advanced U word = transliterate_word_advanced U' word"
    unfolding transliterate_word_advanced_def by (rule unmatched_positions_independent)
qed

theorem heuristics_unreachable_for_lowercase_ascii_witness:
  "unmatched_positions (ascii ''sky'') 0 = []
   \<and> try_lengths (ascii ''sky'') 2 (min 8 (length (ascii ''sky'') - 2)) \<noteq> None
   \<and> eng_to_dev_map (ascii ''y'') \<noteq> None"
  using heuristics_unreachable_for_lowercase_ascii [of "ascii ''sky''" py py]
    heuristics_unreachable_for_lowercase_ascii [of "[]" py py]
  by (simp add: ascii_def)

section \<open>Line structure of the transliteration\<close>

subsection \<open>Splitting at a single character and joining\<close>

lemma split_sep_single_Nil: "split_sep [c] cur [] = [cur]"
  by (subst split_sep.simps) simp

lemma split_sep_single_Cons:
  "split_sep [c] cur (x # xs) =
     (if x = c then cur # split_sep [c] [] xs else split_sep [c] (cur @ [x]) xs)"
  by (subst split_sep.simps) simp

lemma split_sep_single_append:
  "c \<notin> set l \<Longrightarrow> split_sep [c] cur (l @ s) = split_sep [c] (cur @ l) s"
  by (induction l arbitrary: cur) (simp_all add: split_sep_single_Cons)

lemma split_sep_join:
  "\<forall>l \<in> set (x # ls). c \<notin> set l \<Longrightarrow> split_sep [c] cur (join [c] (x # ls)) = (cur @ x) # ls"
proof (induction ls arbitrary: x cur)
  case Nil
  then show ?case
    using split_sep_single_append [of c x cur "[]"] by (simp add: split_sep_single_Nil)
next
  case (Cons y ls)
  then have "split_sep [c] cur (x @ c # join [c] (y # ls)) =
      split_sep [c] (cur @ x) (c # join [c] (y # ls))"
    using split_sep_single_append [of c x cur] by simp
  also have "\<dots> = (cur @ x) # split_sep [c] [] (join [c] (y # ls))"
    by (simp add: split_sep_single_Cons)
  also have "\<dots> = (cur @ x) # y # ls"
    using Cons by simp
  finally show ?case by simp
qed

lemma split_sep_nonempty: "split_sep sep cur s \<noteq> []"
  by (induction sep cur s rule: split_sep.induct) (subst split_sep.simps, simp)

lemma split_ws_subset: "t \<in> set (split_ws U cur s) \<Longrightarrow> set t \<subseteq> set cur \<union> set s"
proof (induction s arbitrary: cur)
  case Nil
  then show ?case by (simp split: if_splits)
next
  case (Cons a s)
  show ?case
  proof (cases "is_space U a")
    case True
    with Cons.prems have "t = cur \<or> t \<in> set (split_ws U [] s)"
      by (simp split: if_splits)
    then show ?thesis
      using Cons.IH [of "[]"] by auto
  next
    case False
    with Cons.prems have "t \<in> set (split_ws U (cur @ [a]) s)" by simp
    then show ?thesis
      using Cons.IH [of "cur @ [a]"] by auto
  qed
qed

lemma join_subset: "set (join sep xs) \<subseteq> set sep \<union> (\<Union>x \<in> set xs. set x)"
  by (induction sep xs rule: join.induct) auto

subsection \<open>No line break is produced inside a line\<close>

lemma list_all_pred_cong: "P = Q \<Longrightarrow> list_all P xs = list_all Q xs"
  by simp

lemma eng_values_above_ascii: "list_all (\<lambda>(k, v). 0xA \<notin> set v) eng_to_dev_items"
  unfolding eng_to_dev_items_def
  by (simp cong: list_all_pred_cong)

lemma eng_value_no_newline: "eng_to_dev_map k = Some v \<Longrightarrow> 0xA \<notin> set v"
  using eng_values_above_ascii dict_of_SomeD [of eng_to_dev_items k v]
  unfolding eng_to_dev_map_def list_all_iff by auto

lemma phonetic_rule_no_newline:
  "i < length word \<Longrightarrow> 0xA \<notin> set word \<Longrightarrow> 0xA \<notin> set (phonetic_rule U word i)"
proof -
  assume "i < length word" and "0xA \<notin> set word"
  then have "word ! i \<noteq> 0xA"
    by (metis nth_mem)
  then show ?thesis
    using eng_value_no_newline [of "[word ! i]"]
    by (auto simp: phonetic_rule_def Let_def split: option.splits)
qed

lemma advanced_loop_no_newline:
  "0xA \<notin> set word \<Longrightarrow> 0xA \<notin> set result \<Longrightarrow> 0xA \<notin> set (advanced_loop U word i result)"
proof (induction U word i result rule: advanced_loop.induct)
  case (1 U word i result)
  show ?case
  proof (cases "i < length word")
    case False
    with 1 show ?thesis by (subst advanced_loop.simps) simp
  next
    case True
    show ?thesis
    proof (cases "try_lengths word i (min 8 (length word - i))")
      case None
      with True 1 phonetic_rule_no_newline [of i word U] show ?thesis
        by (subst advanced_loop.simps) simp
    next
      case (Some l)
      then have "eng_to_dev_map (take l (drop i word)) \<noteq> None"
        by (rule try_lengths_Some_key)
      then obtain v where v: "eng_to_dev_map (take l (drop i word)) = Some v" by auto
      with True Some 1 eng_value_no_newline [of "take l (drop i word)" v] show ?thesis
        by (subst advanced_loop.simps) simp
    qed
  qed
qed

lemma extract_leading_set:
  "extract_leading prefix w = (p, r) \<Longrightarrow> set p \<subseteq> set prefix \<union> set w \<and> set r \<subseteq> set w"
  using set_takeWhileD [of _ "\<lambda>c. c \<in> set lead_chars" w]
    set_dropWhileD [of _ "\<lambda>c. c \<in> set lead_chars" w]
  by (auto simp: extract_leading_eq)

lemma extract_trailing_set:
  "extract_trailing suffix w = (s, r) \<Longrightarrow> set s \<subseteq> set suffix \<union> set w \<and> set r \<subseteq> set w"
  using set_takeWhileD [of _ "\<lambda>c. c \<in> set trail_chars" "rev w"]
    set_dropWhileD [of _ "\<lambda>c. c \<in> set trail_chars" "rev w"]
  by (auto simp: extract_trailing_eq)

lemma process_word_no_newline:
  assumes lower: "\<forall>s. 0xA \<notin> set s \<longrightarrow> 0xA \<notin> set (str_lower U s)"
    and word: "0xA \<notin> set word"
  shows "0xA \<notin> set (process_word U word)"
proof -
  obtain prefix w1 where lead: "extract_leading [] (str_lower U word) = (prefix, w1)"
    by (cases "extract_leading [] (str_lower U word)")
  obtain suffix core where trail: "extract_trailing [] w1 = (suffix, core)"
    by (cases "extract_trailing [] w1")
  from lower word have "0xA \<notin> set (str_lower U word)" by simp
  with extract_leading_set [OF lead] have p: "0xA \<notin> set prefix" and w1: "0xA \<notin> set w1"
    by auto
  with extract_trailing_set [OF trail] have s: "0xA \<notin> set suffix" and c: "0xA \<notin> set core"
    by auto
  from c have "0xA \<notin> set (transliterate_word_advanced U core)"
    unfolding transliterate_word_advanced_def by (intro advanced_loop_no_newline) simp_all
  with p s word lead trail eng_value_no_newline [of core] show ?thesis
    by (auto simp: process_word_def split: option.splits)
qed

lemma process_line_no_newline:
  assumes lower: "\<forall>s. 0xA \<notin> set s \<longrightarrow> 0xA \<notin> set (str_lower U s)"
    and line: "0xA \<notin> set line"
  shows "0xA \<notin> set (process_line U line)"
proof (cases "strip U line = []")
  case True
  then show ?thesis by (simp add: process_line_def)
next
  case False
  have "0xA \<notin> set w" if "w \<in> set (map (process_word U) (split_ws U [] line))" for w
  proof -
    from that obtain t where t: "t \<in> set (split_ws U [] line)" and w: "w = process_word U t"
      by auto
    from t line have "0xA \<notin> set t"
      using split_ws_subset [of t U "[]" line] by auto
    with lower w show ?thesis
      using process_word_no_newline by simp
  qed
  then have "0xA \<notin> set (join [0x20] (map (process_word U) (split_ws U [] line)))"
    using join_subset [of "[0x20]" "map (process_word U) (split_ws U [] line)"] by auto
  with False show ?thesis by (simp add: process_line_def)
qed

lemma split_sep_pieces_free:
  "c \<notin> set cur \<Longrightarrow> l \<in> set (split_sep [c] cur s) \<Longrightarrow> c \<notin> set l"
proof (induction s arbitrary: cur)
  case Nil
  then show ?case by (simp add: split_sep_single_Nil)
next
  case (Cons a s)
  show ?case
  proof (cases "a = c")
    case True
    with Cons.prems have "l = cur \<or> l \<in> set (split_sep [c] [] s)"
      by (simp add: split_sep_single_Cons)
    then show ?thesis
      using Cons.IH [of "[]"] Cons.prems(1) by auto
  next
    case False
    with Cons.prems have "l \<in> set (split_sep [c] (cur @ [a]) s)"
      by (simp add: split_sep_single_Cons)
    with False show ?thesis
      using Cons.IH [of "cur @ [a]"] Cons.prems(1) by auto
  qed
qed

lemma lines_of_output:
  assumes lower: "\<forall>s. 0xA \<notin> set s \<longrightarrow> 0xA \<notin> set (str_lower U s)"
  shows "split_sep [0xA] [] (english_to_devanagari_transliteration U text) =
           map (process_line U) (split_sep [0xA] [] text)"
proof -
  obtain l ls where lines: "split_sep [0xA] [] text = l # ls"
    using split_sep_nonempty [of "[0xA]" "[]" "text"] by (cases "split_sep [0xA] [] text") auto
  have "0xA \<notin> set x" if "x \<in> set (l # ls)" for x
    using that split_sep_pieces_free [of "0xA" "[]" x "text"] lines by simp
  then have "\<forall>y \<in> set (process_line U l # map (process_line U) ls). 0xA \<notin> set y"
    using process_line_no_newline [OF lower] by auto
  then show ?thesis
    using split_sep_join [of "process_line U l" "map (process_line U) ls" "0xA" "[]"]
    by (simp add: english_to_devanagari_transliteration_def lines)
qed

lemma py_lower_no_newline: "\<forall>s. 0xA \<notin> set s \<longrightarrow> 0xA \<notin> set (str_lower py s)"
  by (auto simp: py_def py_lower_cp_def)

text \<open>
  Claim C4. Provided lower-casing a string without line break gives a string without line
  break, the lines of the output (what lies between its line breaks) are the
  transliterations of the lines of the input, one for one and in order, so the output has
  as many lines as the input; a line that is empty or only whitespace comes out empty;
  and the empty input gives the empty output.
\<close>

theorem line_structure_preserved:
  assumes "\<forall>s. 0xA \<notin> set s \<longrightarrow> 0xA \<notin> set (str_lower U s)"
  shows "split_sep [0xA] [] (english_to_devanagari_transliteration U text) =
           map (process_line U) (split_sep [0xA] [] text)
       \<and> length (split_sep [0xA] [] (english_to_devanagari_transliteration U text)) =
           length (split_sep [0xA] [] text)
       \<and> (\<forall>line. strip U line = [] \<longrightarrow> process_line U line = [])
       \<and> process_line U [] = []
       \<and> english_to_devanagari_transliteration U [] = []"
proof (intro conjI allI impI)
  show lines: "split_sep [0xA] [] (english_to_devanagari_transliteration U text) =
           map (process_line U) (split_sep [0xA] [] text)"
    by (rule lines_of_output [OF assms])
  show "length (split_sep [0xA] [] (english_to_devanagari_transliteration U text)) =
           length (split_sep [0xA] [] text)"
    by (simp add: lines)
  show "process_line U line = []" if "strip U line = []" for line
    using that by (simp add: process_line_def)
  show "process_line U [] = []"
    by (simp add: process_line_def strip_def)
  show "english_to_devanagari_transliteration U [] = []"
    by (simp add: english_to_devanagari_transliteration_def split_sep_single_Nil
        process_line_def strip_def)
qed

theorem line_structure_preserved_witness:
  "split_sep [0xA] [] (english_to_devanagari_transliteration py ([0x21, 0xA, 0x20, 0xA, 0x3F]))
     = [[0x21], [], [0x3F]]"
proof -
  have lines: "split_sep [0xA] [] [0x21, 0xA, 0x20, 0xA, 0x3F] = [[0x21], [0x20], [0x3F]]"
    by (simp add: split_sep_single_Cons split_sep_single_Nil)
  have 1: "process_line py [0x21] = [0x21]"
    by (simp add: process_line_def strip_def process_word_def extract_trailing.simps
        lead_chars_def trail_chars_def py_def py_lower_cp_def py_isspace_def)
  have 2: "process_line py [0x3F] = [0x3F]"
    by (simp add: process_line_def strip_def process_word_def extract_trailing.simps
        lead_chars_def trail_chars_def py_def py_lower_cp_def py_isspace_def)
  have 3: "process_line py [0x20] = []"
    by (simp add: process_line_def strip_def py_def py_isspace_def)
  from line_structure_preserved [OF py_lower_no_newline, of "[0x21, 0xA, 0x20, 0xA, 0x3F]"]
  show ?thesis
    by (simp only: lines list.map 1 2 3)
qed

section \<open>The cleanup pass\<close>

lemma replace_ne_subset: "set (replace_ne old new s) \<subseteq> set s \<union> set new"
proof (induction old new s rule: replace_ne.induct)
  case (1 old new s)
  show ?case
  proof (cases "s = [] \<or> old = []")
    case True
    then show ?thesis by (subst replace_ne.simps) simp
  next
    case False
    show ?thesis
    proof (cases "take (length old) s = old")
      case True
      with False "1.IH"(1) have "set (replace_ne old new (drop (length old) s))
          \<subseteq> set (drop (length old) s) \<union> set new"
        by simp
      moreover have "set (drop (length old) s) \<subseteq> set s"
        by (rule set_drop_subset)
      ultimately show ?thesis
        using False True by (subst replace_ne.simps) auto
    next
      case no: False
      with False "1.IH"(2) have "set (replace_ne old new (tl s)) \<subseteq> set (tl s) \<union> set new"
        by simp
      moreover from False have "set s = insert (hd s) (set (tl s))"
        by (cases s) auto
      ultimately show ?thesis
        using False no by (subst replace_ne.simps) auto
    qed
  qed
qed

lemma replace_subset: "old \<noteq> [] \<Longrightarrow> set (replace old new s) \<subseteq> set s \<union> set new"
  by (simp add: replace_def replace_ne_subset)

lemma replace_ne_char_Nil: "replace_ne [c] [] s = filter (\<lambda>x. x \<noteq> c) s"
proof (induction s)
  case Nil
  then show ?case by (subst replace_ne.simps) simp
next
  case (Cons a s)
  then show ?case by (subst replace_ne.simps) simp
qed

lemma remove_symbols_filter: "remove_symbols s = filter (\<lambda>x. x \<notin> symbols) s"
  by (induction s) (auto simp: remove_symbols_def replace_def replace_ne_char_Nil symbols_def)

lemma remove_symbols_id: "set s \<inter> symbols = {} \<Longrightarrow> remove_symbols s = s"
  unfolding remove_symbols_filter by (induction s) auto

lemma replacements_new_clean:
  "list_all (\<lambda>(old, new). old \<noteq> [] \<and> set new \<inter> symbols = {}) replacements"
  by (simp add: replacements_def ascii_def symbols_def)

lemma replace_each_clean:
  "list_all (\<lambda>(old, new). old \<noteq> [] \<and> set new \<inter> symbols = {}) rs \<Longrightarrow> set s \<inter> symbols = {}
   \<Longrightarrow> set (replace_each rs s) \<inter> symbols = {}"
proof (induction rs arbitrary: s)
  case Nil
  then show ?case by simp
next
  case (Cons r rs)
  obtain old new where r: "r = (old, new)" by (cases r)
  with Cons.prems have "old \<noteq> []" and "set new \<inter> symbols = {}" by auto
  with Cons.prems(2) have "set (replace old new s) \<inter> symbols = {}"
    using replace_subset [of old new s] by auto
  with Cons r show ?case by simp
qed

lemma split_sep_subset: "l \<in> set (split_sep sep cur s) \<Longrightarrow> set l \<subseteq> set cur \<union> set s"
proof (induction sep cur s rule: split_sep.induct)
  case (1 sep cur s)
  show ?case
  proof (cases "s = [] \<or> sep = []")
    case True
    with "1.prems" show ?thesis by (subst (asm) split_sep.simps) auto
  next
    case False
    show ?thesis
    proof (cases "take (length sep) s = sep")
      case True
      with False "1.prems" have "l = cur \<or> l \<in> set (split_sep sep [] (drop (length sep) s))"
        by (subst (asm) split_sep.simps) auto
      then show ?thesis
      proof
        assume "l = cur"
        then show ?thesis by simp
      next
        assume "l \<in> set (split_sep sep [] (drop (length sep) s))"
        with False True "1.IH"(1) have "set l \<subseteq> set [] \<union> set (drop (length sep) s)"
          by simp
        then show ?thesis
          using set_drop_subset [of "length sep" s] by auto
      qed
    next
      case no: False
      with False "1.prems" have "l \<in> set (split_sep sep (cur @ [hd s]) (tl s))"
        by (subst (asm) split_sep.simps) auto
      with False no "1.IH"(2) have "set l \<subseteq> set (cur @ [hd s]) \<union> set (tl s)"
        by simp
      moreover from False have "set s = insert (hd s) (set (tl s))"
        by (cases s) auto
      ultimately show ?thesis by auto
    qed
  qed
qed

lemma strip_subset: "set (strip U s) \<subseteq> set s"
proof -
  have "set (strip U s) \<subseteq> set (dropWhile (is_space U) s)"
    unfolding strip_def using set_dropWhileD [of _ "is_space U" "rev (dropWhile (is_space U) s)"]
    by auto
  also have "\<dots> \<subseteq> set s"
    using set_dropWhileD [of _ "is_space U" s] by auto
  finally show ?thesis .
qed

lemma capitalize_all_map: "capitalize_all U xs = map (capitalize_sentence U) xs"
  by (induction xs) simp_all

lemma capitalize_sentence_nonempty:
  "strip U sentence \<noteq> [] \<Longrightarrow>
   capitalize_sentence U sentence = str_upper U [hd (strip U sentence)] @ tl (strip U sentence)"
proof -
  assume ne: "strip U sentence \<noteq> []"
  then have "sentence \<noteq> []" by (auto simp: strip_def)
  moreover from ne obtain a as where "strip U sentence = a # as"
    by (cases "strip U sentence") auto
  ultimately show ?thesis
    by (cases as) (simp_all add: capitalize_sentence_def Let_def)
qed

lemma capitalize_sentence_empty:
  "strip U sentence = [] \<Longrightarrow> capitalize_sentence U sentence = []"
  by (auto simp: capitalize_sentence_def Let_def strip_def)

lemma capitalize_sentence_clean:
  assumes upper: "\<forall>c. c \<notin> symbols \<longrightarrow> set (str_upper U [c]) \<inter> symbols = {}"
    and s: "set s \<inter> symbols = {}"
  shows "set (capitalize_sentence U s) \<inter> symbols = {}"
proof (cases "strip U s = []")
  case True
  then show ?thesis by (simp add: capitalize_sentence_empty)
next
  case False
  from s have st: "set (strip U s) \<inter> symbols = {}"
    using strip_subset [of U s] by auto
  with False have "hd (strip U s) \<notin> symbols"
    by (cases "strip U s") auto
  with upper have "set (str_upper U [hd (strip U s)]) \<inter> symbols = {}" by simp
  moreover from st False have "set (tl (strip U s)) \<inter> symbols = {}"
    by (cases "strip U s") auto
  ultimately show ?thesis
    using False by (auto simp: capitalize_sentence_nonempty)
qed

lemma ensure_first_upper_clean:
  assumes upper: "\<forall>c. c \<notin> symbols \<longrightarrow> set (str_upper U [c]) \<inter> symbols = {}"
    and r: "set r \<inter> symbols = {}"
  shows "set (ensure_first_upper U r) \<inter> symbols = {}"
proof (cases "r \<noteq> [] \<and> is_lower U (hd r)")
  case True
  with r have "hd r \<notin> symbols" and "set (tl r) \<inter> symbols = {}"
    by (cases r; auto)+
  with upper True show ?thesis
    by (auto simp: ensure_first_upper_def)
next
  case False
  with r show ?thesis by (auto simp: ensure_first_upper_def)
qed

lemma clean_romanization_unfold:
  "clean_romanization U s =
     ensure_first_upper U (join (ascii ''. '')
       (map (capitalize_sentence U)
         (split_sep (ascii ''. '') [] (replace_each replacements (remove_symbols s)))))"
  by (simp add: clean_romanization_def Let_def capitalize_all_map)

lemma clean_romanization_clean:
  assumes upper: "\<forall>c. c \<notin> symbols \<longrightarrow> set (str_upper U [c]) \<inter> symbols = {}"
  shows "set (clean_romanization U s) \<inter> symbols = {}"
proof -
  let ?t = "replace_each replacements (remove_symbols s)"
  have "set (remove_symbols s) \<inter> symbols = {}"
    by (auto simp: remove_symbols_filter)
  then have t: "set ?t \<inter> symbols = {}"
    by (rule replace_each_clean [OF replacements_new_clean])
  have "set q \<inter> symbols = {}"
    if "q \<in> set (map (capitalize_sentence U) (split_sep (ascii ''. '') [] ?t))" for q
  proof -
    from that obtain p where p: "p \<in> set (split_sep (ascii ''. '') [] ?t)"
      and q: "q = capitalize_sentence U p" by auto
    from p t have "set p \<inter> symbols = {}"
      using split_sep_subset [of p "ascii ''. ''" "[]" ?t] by auto
    with q show ?thesis
      using capitalize_sentence_clean [OF upper] by simp
  qed
  moreover have "set (ascii ''. '') \<inter> symbols = {}"
    by (simp add: ascii_def symbols_def)
  ultimately have "set (join (ascii ''. '')
       (map (capitalize_sentence U) (split_sep (ascii ''. '') [] ?t))) \<inter> symbols = {}"
    using join_subset [of "ascii ''. ''" "map (capitalize_sentence U) (split_sep (ascii ''. '') [] ?t)"]
    by blast
  then show ?thesis
    unfolding clean_romanization_unfold by (rule ensure_first_upper_clean [OF upper])
qed

lemma cleanup_dot_dot_n: "clean_romanization py (ascii ''..n'') = ascii ''.n''"
  unfolding clean_romanization_def Let_def by (simp add: clean_eval)

lemma cleanup_dot_n: "clean_romanization py (ascii ''.n'') = ascii ''N''"
  unfolding clean_romanization_def Let_def by (simp add: clean_eval)

text \<open>
  Claim C5 says that the cleanup pass is idempotent. The replacement table is applied in
  one ordered sweep, and a replacement can produce a key of the table again: from
  \<open>..n\<close> the pass makes \<open>.n\<close>, and from \<open>.n\<close> it makes \<open>N\<close>.
\<close>

theorem cleanup_not_idempotent:
  "clean_romanization py (clean_romanization py (ascii ''..n'')) \<noteq>
     clean_romanization py (ascii ''..n'')"
  by (simp add: cleanup_dot_dot_n cleanup_dot_n) (simp add: ascii_def)

text \<open>
  Claim C5, amended. A cleaned string has no further symbol to strip: provided upper-casing
  a character other than \<open>~\<close>, \<open>|\<close>, \<open>^\<close> produces none of these three, the result of the
  cleanup pass contains none of them, so the symbol-stripping step of a second pass
  leaves it unchanged; and the symbol-stripping step itself is idempotent.
\<close>

theorem cleanup_leaves_no_symbol:
  assumes "\<forall>c. c \<notin> symbols \<longrightarrow> set (str_upper U [c]) \<inter> symbols = {}"
  shows "set (clean_romanization U s) \<inter> symbols = {}
       \<and> remove_symbols (clean_romanization U s) = clean_romanization U s
       \<and> remove_symbols (remove_symbols s) = remove_symbols s"
proof (intro conjI)
  show c: "set (clean_romanization U s) \<inter> symbols = {}"
    by (rule clean_romanization_clean [OF assms])
  then show "remove_symbols (clean_romanization U s) = clean_romanization U s"
    by (rule remove_symbols_id)
  show "remove_symbols (remove_symbols s) = remove_symbols s"
    by (simp add: remove_symbols_filter)
qed

lemma py_upper_symbols: "\<forall>c. c \<notin> symbols \<longrightarrow> set (str_upper py [c]) \<inter> symbols = {}"
  by (auto simp: py_def py_upper_cp_def symbols_def)

theorem cleanup_leaves_no_symbol_witness:
  "remove_symbols (clean_romanization py (ascii ''..n'')) = ascii ''.n''
   \<and> remove_symbols (ascii ''a~|^'') = ascii ''a''"
  using cleanup_leaves_no_symbol [OF py_upper_symbols, of "ascii ''..n''"]
  by (simp add: cleanup_dot_dot_n) (simp add: remove_symbols_filter symbols_def ascii_def)







section \<open>Letter case of the input\<close>

subsection \<open>Whitespace splitting\<close>

lemma split_ws_token:
  "\<forall>c \<in> set t. \<not> is_space U c \<Longrightarrow> split_ws U cur (t @ s) = split_ws U (cur @ t) s"
  by (induction t arbitrary: cur) simp_all

lemma split_ws_space:
  "is_space U c \<Longrightarrow> split_ws U cur (c # r) = (if cur = [] then [] else [cur]) @ split_ws U [] r"
  by simp

lemma split_ws_token_space:
  assumes "\<forall>c \<in> set t. \<not> is_space U c" and "is_space U c"
  shows "split_ws U [] (t @ c # r) = (if t = [] then [] else [t]) @ split_ws U [] r"
  using split_ws_token [OF assms(1), of "[]" "c # r"] assms(2) by simp

lemma split_ws_token_only:
  assumes "\<forall>c \<in> set t. \<not> is_space U c"
  shows "split_ws U [] t = (if t = [] then [] else [t])"
  using split_ws_token [OF assms, of "[]" "[]"] by simp

lemma split_ws_Nil_iff: "split_ws U cur s = [] \<longleftrightarrow> cur = [] \<and> (\<forall>c \<in> set s. is_space U c)"
  by (induction s arbitrary: cur) auto

lemma strip_Nil_iff: "strip U s = [] \<longleftrightarrow> (\<forall>c \<in> set s. is_space U c)"
proof -
  have "strip U s = [] \<longleftrightarrow> (\<forall>c \<in> set (dropWhile (is_space U) s). is_space U c)"
    unfolding strip_def by (simp only: rev_is_Nil_conv dropWhile_eq_Nil_conv set_rev)
  also have "\<dots> \<longleftrightarrow> dropWhile (is_space U) s = []"
  proof
    assume all: "\<forall>c \<in> set (dropWhile (is_space U) s). is_space U c"
    show "dropWhile (is_space U) s = []"
    proof (rule ccontr)
      assume ne: "dropWhile (is_space U) s \<noteq> []"
      then have "\<not> is_space U (hd (dropWhile (is_space U) s))"
        by (rule hd_dropWhile)
      with all ne show False by simp
    qed
  next
    assume e: "dropWhile (is_space U) s = []"
    show "\<forall>c \<in> set (dropWhile (is_space U) s). is_space U c"
      unfolding e by simp
  qed
  also have "\<dots> \<longleftrightarrow> (\<forall>c \<in> set s. is_space U c)"
    by (simp only: dropWhile_eq_Nil_conv)
  finally show ?thesis .
qed

subsection \<open>Lower-casing commutes with splitting\<close>

lemma lower_Nil_iff:
  assumes empty: "str_lower U [] = []"
    and punct: "\<forall>s. set (str_lower U s) \<subseteq> set lead_chars \<union> set trail_chars \<longrightarrow> str_lower U s = s"
  shows "str_lower U s = [] \<longleftrightarrow> s = []"
proof
  assume l: "str_lower U s = []"
  then have "set (str_lower U s) \<subseteq> set lead_chars \<union> set trail_chars" by simp
  with punct have "str_lower U s = s" by blast
  with l show "s = []" by simp
next
  assume "s = []"
  with empty show "str_lower U s = []" by simp
qed

lemma split_ws_lower:
  assumes sep: "\<forall>a c b. is_space U c \<longrightarrow> str_lower U (a @ c # b) = str_lower U a @ c # str_lower U b"
    and tok: "\<forall>s. (\<forall>c \<in> set s. \<not> is_space U c) \<longrightarrow> (\<forall>c \<in> set (str_lower U s). \<not> is_space U c)"
    and empty: "str_lower U [] = []"
    and punct: "\<forall>s. set (str_lower U s) \<subseteq> set lead_chars \<union> set trail_chars \<longrightarrow> str_lower U s = s"
  shows "split_ws U [] (str_lower U s) = map (str_lower U) (split_ws U [] s)"
proof (induction s rule: length_induct)
  case (1 s)
  note nil = lower_Nil_iff [OF empty punct]
  show ?case
  proof (cases "\<exists>c \<in> set s. is_space U c")
    case False
    then have free: "\<forall>c \<in> set s. \<not> is_space U c" by simp
    with tok have "\<forall>c \<in> set (str_lower U s). \<not> is_space U c" by blast
    then have "split_ws U [] (str_lower U s) = (if str_lower U s = [] then [] else [str_lower U s])"
      by (rule split_ws_token_only)
    moreover from free have "split_ws U [] s = (if s = [] then [] else [s])"
      by (rule split_ws_token_only)
    ultimately show ?thesis
      using nil [of s] by simp
  next
    case True
    then obtain t c r where s: "s = t @ c # r" and c: "is_space U c"
      and t: "\<forall>x \<in> set t. \<not> is_space U x"
      using split_list_first_prop [of s "is_space U"] by blast
    from sep c have low: "str_lower U s = str_lower U t @ c # str_lower U r"
      unfolding s by blast
    from tok t have lt: "\<forall>x \<in> set (str_lower U t). \<not> is_space U x" by blast
    from s have "length r < length s" by simp
    with 1 have ih: "split_ws U [] (str_lower U r) = map (str_lower U) (split_ws U [] r)"
      by blast
    have "split_ws U [] (str_lower U s) =
        (if str_lower U t = [] then [] else [str_lower U t]) @ split_ws U [] (str_lower U r)"
      unfolding low by (rule split_ws_token_space [OF lt c])
    moreover have "split_ws U [] s = (if t = [] then [] else [t]) @ split_ws U [] r"
      unfolding s by (rule split_ws_token_space [OF t c])
    ultimately show ?thesis
      using ih nil [of t] by simp
  qed
qed

lemma lower_no_newline:
  assumes sep: "\<forall>a c b. is_space U c \<longrightarrow> str_lower U (a @ c # b) = str_lower U a @ c # str_lower U b"
    and tok: "\<forall>s. (\<forall>c \<in> set s. \<not> is_space U c) \<longrightarrow> (\<forall>c \<in> set (str_lower U s). \<not> is_space U c)"
    and nl: "is_space U 0xA"
  shows "0xA \<notin> set s \<Longrightarrow> 0xA \<notin> set (str_lower U s)"
proof (induction s rule: length_induct)
  case (1 s)
  show ?case
  proof (cases "\<exists>c \<in> set s. is_space U c")
    case False
    with tok have "\<forall>c \<in> set (str_lower U s). \<not> is_space U c" by blast
    with nl show ?thesis by blast
  next
    case True
    then obtain t c r where s: "s = t @ c # r" and c: "is_space U c"
      and t: "\<forall>x \<in> set t. \<not> is_space U x"
      using split_list_first_prop [of s "is_space U"] by blast
    from sep c have low: "str_lower U s = str_lower U t @ c # str_lower U r"
      unfolding s by blast
    from tok t have "\<forall>x \<in> set (str_lower U t). \<not> is_space U x" by blast
    with nl have 1: "0xA \<notin> set (str_lower U t)" by blast
    from "1.prems" s have 2: "c \<noteq> 0xA" and "0xA \<notin> set r" by auto
    moreover from s have "length r < length s" by simp
    ultimately have 3: "0xA \<notin> set (str_lower U r)"
      using "1.IH" by blast
    from 1 2 3 show ?thesis unfolding low by simp
  qed
qed

lemma split_lines_lower:
  assumes sep: "\<forall>a c b. is_space U c \<longrightarrow> str_lower U (a @ c # b) = str_lower U a @ c # str_lower U b"
    and tok: "\<forall>s. (\<forall>c \<in> set s. \<not> is_space U c) \<longrightarrow> (\<forall>c \<in> set (str_lower U s). \<not> is_space U c)"
    and nl: "is_space U 0xA"
  shows "split_sep [0xA] [] (str_lower U s) = map (str_lower U) (split_sep [0xA] [] s)"
proof (induction s rule: length_induct)
  case (1 s)
  note keep = lower_no_newline [OF sep tok nl]
  show ?case
  proof (cases "0xA \<in> set s")
    case False
    then have "0xA \<notin> set (str_lower U s)" by (rule keep)
    then have "split_sep [0xA] [] (str_lower U s) = [str_lower U s]"
      using split_sep_single_append [of "0xA" "str_lower U s" "[]" "[]"]
      by (simp add: split_sep_single_Nil)
    moreover from False have "split_sep [0xA] [] s = [s]"
      using split_sep_single_append [of "0xA" s "[]" "[]"]
      by (simp add: split_sep_single_Nil)
    ultimately show ?thesis by simp
  next
    case True
    then obtain a b where s: "s = a @ 0xA # b" and a: "0xA \<notin> set a"
      using split_list_first [of "0xA" s] by blast
    from sep nl have low: "str_lower U s = str_lower U a @ 0xA # str_lower U b"
      unfolding s by blast
    from a have la: "0xA \<notin> set (str_lower U a)" by (rule keep)
    from s have "length b < length s" by simp
    with 1 have ih: "split_sep [0xA] [] (str_lower U b) = map (str_lower U) (split_sep [0xA] [] b)"
      by blast
    have "split_sep [0xA] [] (str_lower U s) = str_lower U a # split_sep [0xA] [] (str_lower U b)"
      unfolding low using split_sep_single_append [OF la, of "[]" "0xA # str_lower U b"]
      by (simp add: split_sep_single_Cons)
    moreover have "split_sep [0xA] [] s = a # split_sep [0xA] [] b"
      unfolding s using split_sep_single_append [OF a, of "[]" "0xA # b"]
      by (simp add: split_sep_single_Cons)
    ultimately show ?thesis using ih by simp
  qed
qed

subsection \<open>Words, lines and texts\<close>

lemma process_word_lower:
  assumes idem: "\<forall>s. str_lower U (str_lower U s) = str_lower U s"
    and punct: "\<forall>s. set (str_lower U s) \<subseteq> set lead_chars \<union> set trail_chars \<longrightarrow> str_lower U s = s"
  shows "process_word U (str_lower U word) = process_word U word"
proof -
  define lw where "lw = str_lower U word"
  obtain prefix w1 where lead: "extract_leading [] lw = (prefix, w1)"
    by (cases "extract_leading [] lw")
  obtain suffix cw where trail: "extract_trailing [] w1 = (suffix, cw)"
    by (cases "extract_trailing [] w1")
  define out where "out = (case eng_to_dev_map cw of
      Some m \<Rightarrow> prefix @ m @ suffix
    | None \<Rightarrow> prefix @ transliterate_word_advanced U cw @ suffix)"
  have ll: "str_lower U lw = lw"
    unfolding lw_def using idem by simp
  have 1: "process_word U word = (if cw = [] then word else out)"
    unfolding process_word_def lead [unfolded lw_def] by (simp add: trail out_def)
  have 2: "process_word U lw = (if cw = [] then lw else out)"
    unfolding process_word_def ll lead by (simp add: trail out_def)
  have "lw = word" if "cw = []"
  proof -
    from lead have p: "prefix = takeWhile (\<lambda>c. c \<in> set lead_chars) lw"
      and w1: "w1 = dropWhile (\<lambda>c. c \<in> set lead_chars) lw"
      by (simp_all add: extract_leading_eq)
    from trail that have "dropWhile (\<lambda>c. c \<in> set trail_chars) (rev w1) = []"
      by (simp add: extract_trailing_eq)
    then have "\<forall>c \<in> set (rev w1). c \<in> set trail_chars"
      by (simp only: dropWhile_eq_Nil_conv)
    then have "set w1 \<subseteq> set trail_chars" by auto
    moreover have "set prefix \<subseteq> set lead_chars"
      unfolding p using set_takeWhileD [of _ "\<lambda>c. c \<in> set lead_chars" lw] by blast
    moreover have "lw = prefix @ w1"
      unfolding p w1 by simp
    ultimately have "set lw \<subseteq> set lead_chars \<union> set trail_chars" by auto
    with punct show ?thesis
      unfolding lw_def by blast
  qed
  with 1 2 show ?thesis
    unfolding lw_def by simp
qed

lemma process_line_lower:
  assumes sep: "\<forall>a c b. is_space U c \<longrightarrow> str_lower U (a @ c # b) = str_lower U a @ c # str_lower U b"
    and tok: "\<forall>s. (\<forall>c \<in> set s. \<not> is_space U c) \<longrightarrow> (\<forall>c \<in> set (str_lower U s). \<not> is_space U c)"
    and idem: "\<forall>s. str_lower U (str_lower U s) = str_lower U s"
    and punct: "\<forall>s. set (str_lower U s) \<subseteq> set lead_chars \<union> set trail_chars \<longrightarrow> str_lower U s = s"
    and empty: "str_lower U [] = []"
  shows "process_line U (str_lower U line) = process_line U line"
proof -
  have words: "split_ws U [] (str_lower U line) = map (str_lower U) (split_ws U [] line)"
    by (rule split_ws_lower [OF sep tok empty punct])
  have "strip U (str_lower U line) = [] \<longleftrightarrow> split_ws U [] (str_lower U line) = []"
    by (simp add: strip_Nil_iff split_ws_Nil_iff)
  also have "\<dots> \<longleftrightarrow> split_ws U [] line = []"
    by (simp add: words)
  also have "\<dots> \<longleftrightarrow> strip U line = []"
    by (simp add: strip_Nil_iff split_ws_Nil_iff)
  finally have blank: "strip U (str_lower U line) = [] \<longleftrightarrow> strip U line = []" .
  have "process_word U \<circ> str_lower U = process_word U"
    by (rule ext) (simp add: process_word_lower [OF idem punct])
  with blank words show ?thesis
    by (simp add: process_line_def)
qed

text \<open>
  Claim C9. Lower-casing the whole input first does not change the transliteration. The
  proof uses six facts about \<open>str.lower\<close> and whitespace, which hold in Python: a
  whitespace character is kept and separates what is lower-cased before it from what is
  lower-cased after it; lower-casing a string without whitespace gives a string without
  whitespace; lower-casing twice is lower-casing once; a string whose lower-case form
  consists of the punctuation characters of the two stripping loops is its own lower-case
  form; the empty string is its own lower-case form; and the line break is whitespace.
\<close>

theorem transliteration_ignores_case:
  assumes "\<forall>a c b. is_space U c \<longrightarrow> str_lower U (a @ c # b) = str_lower U a @ c # str_lower U b"
    and "\<forall>s. (\<forall>c \<in> set s. \<not> is_space U c) \<longrightarrow> (\<forall>c \<in> set (str_lower U s). \<not> is_space U c)"
    and "\<forall>s. str_lower U (str_lower U s) = str_lower U s"
    and "\<forall>s. set (str_lower U s) \<subseteq> set lead_chars \<union> set trail_chars \<longrightarrow> str_lower U s = s"
    and "str_lower U [] = []"
    and "is_space U 0xA"
  shows "english_to_devanagari_transliteration U (str_lower U text) =
           english_to_devanagari_transliteration U text"
proof -
  have lines: "split_sep [0xA] [] (str_lower U text) = map (str_lower U) (split_sep [0xA] [] text)"
    by (rule split_lines_lower [OF assms(1) assms(2) assms(6)])
  have "process_line U \<circ> str_lower U = process_line U"
    by (rule ext)
      (simp add: process_line_lower [OF assms(1) assms(2) assms(3) assms(4) assms(5)])
  with lines show ?thesis
    by (simp add: english_to_devanagari_transliteration_def)
qed

lemma py_lower_cp_space: "py_isspace c \<Longrightarrow> py_lower_cp c = c"
  by (auto simp: py_isspace_def py_lower_cp_def)

lemma py_lower_cp_not_space: "\<not> py_isspace c \<Longrightarrow> \<not> py_isspace (py_lower_cp c)"
  by (auto simp: py_isspace_def py_lower_cp_def)

lemma py_lower_cp_idem: "py_lower_cp (py_lower_cp c) = py_lower_cp c"
  by (simp add: py_lower_cp_def)

lemma py_lower_facts:
  "\<forall>a c b. is_space py c \<longrightarrow> str_lower py (a @ c # b) = str_lower py a @ c # str_lower py b"
  "\<forall>s. (\<forall>c \<in> set s. \<not> is_space py c) \<longrightarrow> (\<forall>c \<in> set (str_lower py s). \<not> is_space py c)"
  "\<forall>s. str_lower py (str_lower py s) = str_lower py s"
  "str_lower py [] = []"
  "is_space py 0xA"
proof -
  show "\<forall>a c b. is_space py c \<longrightarrow> str_lower py (a @ c # b) = str_lower py a @ c # str_lower py b"
    by (simp add: py_def py_lower_cp_space)
  show "\<forall>s. (\<forall>c \<in> set s. \<not> is_space py c) \<longrightarrow> (\<forall>c \<in> set (str_lower py s). \<not> is_space py c)"
    by (auto simp: py_def py_lower_cp_not_space)
  show "\<forall>s. str_lower py (str_lower py s) = str_lower py s"
    by (simp add: py_def py_lower_cp_idem)
  show "str_lower py [] = []"
    by (simp add: py_def)
  show "is_space py 0xA"
    by (simp add: py_def py_isspace_def)
qed

lemma py_lower_punct:
  "\<forall>s. set (str_lower py s) \<subseteq> set lead_chars \<union> set trail_chars \<longrightarrow> str_lower py s = s"
proof (intro allI impI)
  fix s
  assume a: "set (str_lower py s) \<subseteq> set lead_chars \<union> set trail_chars"
  have "py_lower_cp c = c" if "c \<in> set s" for c
  proof -
    from that a have "py_lower_cp c \<in> set lead_chars \<union> set trail_chars"
      by (auto simp: py_def)
    then show ?thesis
      by (auto simp: py_lower_cp_def lead_chars_def trail_chars_def split: if_splits)
  qed
  then show "str_lower py s = s"
    by (simp add: py_def map_idI)
qed

theorem transliteration_ignores_case_witness:
  "english_to_devanagari_transliteration py (ascii ''the boy'') =
     english_to_devanagari_transliteration py (ascii ''The BOY'')"
proof -
  have "str_lower py (ascii ''The BOY'') = ascii ''the boy''"
    by (simp add: py_def py_lower_cp_def ascii_def)
  with transliteration_ignores_case
    [OF py_lower_facts(1) py_lower_facts(2) py_lower_facts(3) py_lower_punct
      py_lower_facts(4) py_lower_facts(5), of "ascii ''The BOY''"]
  show ?thesis by simp
qed

section \<open>The fallback romanization\<close>

lemma manual_char_simp:
  "manual_char U = (\<lambda>c. case enhanced_map [c] of Some r \<Rightarrow> r | None \<Rightarrow> [c])"
  by (rule ext) (simp add: manual_char_def split: option.splits)

lemma manual_loop_acc:
  "manual_loop U result text = result @ concat (map (manual_char U) text)"
  by (induction "text" arbitrary: result) simp_all

text \<open>
  Claim C7 says that the fallback path passes every unmapped character through unchanged
  into the result, also for a string of only punctuation. The tilde is punctuation and
  is not a key of the fallback table, yet the fallback returns the empty string for it:
  the cleanup pass that ends the fallback removes it.
\<close>

theorem fallback_drops_unmapped_tilde:
  "enhanced_map [0x7E] = None \<and> 0x7E \<notin> set (enhanced_manual_hindi_to_roman py [0x7E])"
  by (simp add: enhanced_map_tilde enhanced_manual_hindi_to_roman_def manual_char_def clean_tilde)

text \<open>
  Claim C7, amended. The fallback is total: it returns a string for every input, the empty
  string for the empty input. Its character loop appends, in order, the table value of a
  mapped character and the character itself for an unmapped one, so a string without
  mapped characters leaves the loop unchanged. What the fallback returns is the cleanup
  pass applied to the loop's string.
\<close>

theorem fallback_pass_through_then_cleanup:
  "manual_loop U [] text =
     concat (map (\<lambda>c. case enhanced_map [c] of Some r \<Rightarrow> r | None \<Rightarrow> [c]) text)
   \<and> ((\<forall>c \<in> set text. enhanced_map [c] = None) \<longrightarrow> manual_loop U [] text = text)
   \<and> enhanced_manual_hindi_to_roman U text = clean_romanization U (manual_loop U [] text)
   \<and> enhanced_manual_hindi_to_roman U [] = []"
proof (intro conjI impI)
  show loop: "manual_loop U [] text =
      concat (map (\<lambda>c. case enhanced_map [c] of Some r \<Rightarrow> r | None \<Rightarrow> [c]) text)"
    by (simp add: manual_loop_acc manual_char_simp)
  show "manual_loop U [] text = text" if "\<forall>c \<in> set text. enhanced_map [c] = None"
    using that unfolding loop by (induction "text") simp_all
  show "enhanced_manual_hindi_to_roman U text = clean_romanization U (manual_loop U [] text)"
    by (simp add: enhanced_manual_hindi_to_roman_def)
  show "enhanced_manual_hindi_to_roman U [] = []"
    unfolding enhanced_manual_hindi_to_roman_def clean_romanization_def Let_def
    by (simp add: clean_eval)
qed

theorem fallback_pass_through_then_cleanup_witness:
  "manual_loop py [] [0x7E] = [0x7E]
   \<and> enhanced_manual_hindi_to_roman py [0x7E] = clean_romanization py [0x7E]
   \<and> clean_romanization py [0x7E] = []"
  using fallback_pass_through_then_cleanup [of py "[0x7E]"] enhanced_map_tilde
  by (simp add: clean_tilde)

section \<open>Graceful degradation of the romanization\<close>





end
